theory Spec2Isabelle
  imports Complex_Main "HOL-Library.Product_Lexorder"
begin

section \<open>Python strings and paths\<close>

text \<open>
  The strings of paths and printed lines are character lists. \<open>str_join\<close> is \<^verbatim>\<open>sep.join(xs)\<close>, \<open>str_nat\<close> is \<^verbatim>\<open>str(n)\<close>
  of a non-negative integer (what an f-string prints for it).
\<close>

fun str_join :: "string \<Rightarrow> string list \<Rightarrow> string" where
  "str_join sep [] = []"
| "str_join sep [x] = x"
| "str_join sep (x # y # ys) = x @ sep @ str_join sep (y # ys)"

definition digit_char :: "nat \<Rightarrow> char" where
  "digit_char d = char_of (48 + d)"

fun str_nat :: "nat \<Rightarrow> string" where
  "str_nat n = (if n < 10 then [digit_char n] else str_nat (n div 10) @ [digit_char (n mod 10)])"

declare str_nat.simps [simp del]

text \<open>\<^verbatim>\<open>s.replace(old, new)\<close>: every occurrence of \<open>old\<close>, left to right, without overlap.\<close>

fun replace_from :: "string \<Rightarrow> string \<Rightarrow> nat \<Rightarrow> string \<Rightarrow> string" where
  "replace_from old new k [] = []"
| "replace_from old new (Suc k) (c # cs) = replace_from old new k cs"
| "replace_from old new 0 (c # cs) =
     (if take (length old) (c # cs) = old then new @ replace_from old new (length old - 1) cs
      else c # replace_from old new 0 cs)"

definition str_replace :: "string \<Rightarrow> string \<Rightarrow> string \<Rightarrow> string" where
  "str_replace old new s =
     (if old = [] then new @ concat (map (\<lambda>c. c # new) s) else replace_from old new 0 s)"

text \<open>
  \<^verbatim>\<open>s.endswith(suffix)\<close>.
\<close>

definition endswith :: "'a list \<Rightarrow> 'a list \<Rightarrow> bool" where
  "endswith s suffix = (length suffix \<le> length s \<and> drop (length s - length suffix) s = suffix)"

text \<open>
  \<^verbatim>\<open>s.lower()\<close>. A \<^verbatim>\<open>str\<close> is a sequence of Unicode code points, which are numbers here;
  \<open>codepoints\<close> gives those of a string of 8-bit characters. The case mappings are data of the
  interpreter's Unicode database, which is a parameter: the lower-case mapping of a code point
  (one code point or more, \<^verbatim>\<open>_PyUnicode_ToLowerFull\<close>), its case folding
  (\<^verbatim>\<open>_PyUnicode_ToFoldedFull\<close>), and the properties \<^verbatim>\<open>Cased\<close> and \<^verbatim>\<open>Case_Ignorable\<close>.
\<close>

definition codepoints :: "string \<Rightarrow> nat list" where
  "codepoints s = map of_char s"

record unicode_data =
  to_lower_full :: "nat \<Rightarrow> nat \<times> nat list"
  to_folded_full :: "nat \<Rightarrow> nat \<times> nat list"
  is_cased :: "nat \<Rightarrow> bool"
  is_case_ignorable :: "nat \<Rightarrow> bool"

text \<open>
  A string of ASCII characters is lower-cased byte by byte (\<^verbatim>\<open>ascii_upper_or_lower\<close>). Any
  other string is lower-cased code point by code point (\<^verbatim>\<open>do_lower\<close>, \<^verbatim>\<open>lower_ucs4\<close>) by the
  lower-case mapping, except for the capital sigma \<^verbatim>\<open>U+03A3\<close>, which becomes the final sigma
  \<^verbatim>\<open>U+03C2\<close> when it ends a word and the small sigma \<^verbatim>\<open>U+03C3\<close> otherwise
  (\<^verbatim>\<open>handle_capital_sigma\<close>): it ends a word when, case-ignorable code points skipped, a cased
  code point stands before it and none after it.
\<close>

definition is_ascii :: "nat list \<Rightarrow> bool" where
  "is_ascii s = list_all (\<lambda>c. c < 128) s"

definition ascii_lower :: "nat \<Rightarrow> nat" where
  "ascii_lower c = (if 65 \<le> c \<and> c \<le> 90 then c + 32 else c)"

definition final_sigma :: "unicode_data \<Rightarrow> nat list \<Rightarrow> nat \<Rightarrow> bool" where
  "final_sigma u s i =
     (let before = dropWhile (is_case_ignorable u) (rev (take i s));
          after = dropWhile (is_case_ignorable u) (drop (i + 1) s)
      in before \<noteq> [] \<and> is_cased u (hd before) \<and> (after = [] \<or> \<not> is_cased u (hd after)))"

definition lower_ucs4 :: "unicode_data \<Rightarrow> nat list \<Rightarrow> nat \<Rightarrow> nat list" where
  "lower_ucs4 u s i =
     (let c = s ! i
      in if c = 0x3A3 then [if final_sigma u s i then 0x3C2 else 0x3C3]
         else case to_lower_full u c of (x, xs) \<Rightarrow> x # xs)"

definition lower :: "unicode_data \<Rightarrow> nat list \<Rightarrow> nat list" where
  "lower u s =
     (if is_ascii s then map ascii_lower s else concat (map (lower_ucs4 u s) [0..<length s]))"

text \<open>\<^verbatim>\<open>os.path.basename\<close>, the root of \<^verbatim>\<open>os.path.splitext\<close> and \<^verbatim>\<open>os.path.join\<close> (POSIX).\<close>

definition path_basename :: "string \<Rightarrow> string" where
  "path_basename p = rev (takeWhile (\<lambda>c. c \<noteq> CHR ''/'') (rev p))"

definition splitext_root :: "string \<Rightarrow> string" where
  "splitext_root p =
     (let name = path_basename p;
          dir = take (length p - length name) p;
          stem = rev (drop 1 (dropWhile (\<lambda>c. c \<noteq> CHR ''.'') (rev name)))
      in if CHR ''.'' \<in> set name \<and> list_ex (\<lambda>c. c \<noteq> CHR ''.'') stem then dir @ stem else p)"

definition path_join :: "string \<Rightarrow> string \<Rightarrow> string" where
  "path_join a b =
     (if take 1 b = ''/'' then b
      else if a = [] \<or> endswith a ''/'' then a @ b
      else a @ ''/'' @ b)"

section \<open>The world the program acts on\<close>

text \<open>
  The outcome of the \<^verbatim>\<open>try\<close> block of one iteration of the loop of
  \<^verbatim>\<open>transcribe_audio_chunks\<close>: the recognised text, or the handler that ran
  (\<^verbatim>\<open>sr.UnknownValueError\<close>, \<^verbatim>\<open>sr.RequestError\<close>, any other \<^verbatim>\<open>Exception\<close>) with the
  exception's message.
\<close>

datatype outcome =
    Text string
  | Unrecognized
  | RequestFailed string
  | UnexpectedFailure string

text \<open>
  Files: a video with the duration of its audio track (\<open>None\<close>: no audio track), an audio file
  with its duration, a text file. Durations are exact rationals (seconds).
\<close>

datatype fcontent =
    VideoFile "rat option"
  | AudioFile rat
  | TextFile string

text \<open>
  What the program does to the outside, in the order it does it. \<open>WriteAudio p s e\<close>: the span
  \<open>[s, e)\<close> of the audio track was written to \<open>p\<close>; \<open>Recognise i p oc\<close>: the recognition
  service was called for chunk \<open>i\<close> at \<open>p\<close> (\<^verbatim>\<open>recognize_google\<close>), and the call ended as \<open>oc\<close>.
\<close>

datatype event =
    Print string
  | WriteAudio string rat rat
  | Recognise nat string outcome
  | Remove string
  | WriteText string string

record world =
  files :: "string \<Rightarrow> fcontent option"
  events :: "event list"

text \<open>
  The environment: everything the program cannot decide itself. A \<open>Some msg\<close> is the
  exception the operation raises, with its message. \<open>recognize\<close> is how the call of the
  recognition service ends for a chunk, \<open>read_error\<close> the failure to read a chunk file that is
  there and holds audio.
\<close>

record env =
  recognize :: "nat \<Rightarrow> string \<Rightarrow> outcome"
  read_error :: "string \<Rightarrow> string option"
  write_error :: "string \<Rightarrow> string option"
  makedirs_error :: "string \<Rightarrow> string option"
  listdir :: "string \<Rightarrow> string + string list"
  unicode :: unicode_data

definition emit :: "event \<Rightarrow> world \<Rightarrow> world" where
  "emit e w = w\<lparr>events := events w @ [e]\<rparr>"

definition print :: "string \<Rightarrow> world \<Rightarrow> world" where
  "print msg w = emit (Print msg) w"

definition path_exists :: "string \<Rightarrow> world \<Rightarrow> bool" where
  "path_exists p w = (files w p \<noteq> None)"

text \<open>\<^verbatim>\<open>os.remove(p)\<close>: raises when there is no such file, otherwise the file is gone.\<close>

definition os_remove :: "string \<Rightarrow> world \<Rightarrow> string + world" where
  "os_remove p w =
     (if files w p = None then Inl ''FileNotFoundError''
      else Inr (emit (Remove p) (w\<lparr>files := (files w)(p := None)\<rparr>)))"

text \<open>\<^verbatim>\<open>try: os.remove(p)  except: pass\<close>\<close>

definition remove_quietly :: "string \<Rightarrow> world \<Rightarrow> world" where
  "remove_quietly p w = (case os_remove p w of Inl _ \<Rightarrow> w | Inr w' \<Rightarrow> w')"

section \<open>extract_audio\<close>

text \<open>
  Writing an audio file can fail (\<open>write_error\<close>); a failed write leaves the world as it was.
  The message of an exception raised inside a library is not known to the program: a fixed text
  stands for it. A track without duration cannot be written at all: the library finds no
  sample to read and raises.
\<close>

definition write_audiofile :: "env \<Rightarrow> string \<Rightarrow> rat \<Rightarrow> rat \<Rightarrow> world \<Rightarrow> string + world" where
  "write_audiofile en p s e w =
     (case write_error en p of
        Some msg \<Rightarrow> Inl msg
      | None \<Rightarrow> Inr (emit (WriteAudio p s e) (w\<lparr>files := (files w)(p \<mapsto> AudioFile (e - s))\<rparr>)))"

definition extract_audio :: "env \<Rightarrow> string \<Rightarrow> string \<Rightarrow> world \<Rightarrow> string option \<times> world" where
  "extract_audio en video_path audio_path w =
     (case
        (case files w video_path of
           Some (VideoFile (Some d)) \<Rightarrow>
             if d \<le> 0 then Inl ''index 0 is out of bounds for axis 0 with size 0''
             else write_audiofile en audio_path 0 d w
         | Some (VideoFile None) \<Rightarrow> Inl ''No audio track found in video''
         | _ \<Rightarrow> Inl ''could not open video'')
      of
        Inl e \<Rightarrow> (None, print (''Error extracting audio: '' @ e) w)
      | Inr w' \<Rightarrow> (Some audio_path, w'))"

section \<open>split_audio\<close>

definition chunk_path :: "string \<Rightarrow> nat \<Rightarrow> string" where
  "chunk_path audio_path i = str_replace ''.wav'' (''_chunk_'' @ str_nat i @ ''.wav'') audio_path"

definition open_audio :: "string \<Rightarrow> world \<Rightarrow> string + rat" where
  "open_audio p w =
     (case files w p of
        Some (AudioFile d) \<Rightarrow> Inr d
      | Some (VideoFile (Some d)) \<Rightarrow> Inr d
      | _ \<Rightarrow> Inl ''could not open audio'')"

text \<open>
  The loop over \<^verbatim>\<open>range(num_chunks)\<close>. An exception leaves the loop with the world as it is
  then: the chunks written so far stay written.
\<close>

fun split_loop ::
  "env \<Rightarrow> string \<Rightarrow> int \<Rightarrow> rat \<Rightarrow> nat list \<Rightarrow> string list \<times> world \<Rightarrow>
     (string \<times> world) + (string list \<times> world)" where
  "split_loop en audio_path chunk_duration duration [] st = Inr st"
| "split_loop en audio_path chunk_duration duration (i # is) st =
     (let (chunks, w) = st;
          start_time = of_int (int i * chunk_duration);
          end_time = min (of_int ((int i + 1) * chunk_duration)) duration;
          chunk_path = chunk_path audio_path i
      in case write_audiofile en chunk_path start_time end_time w of
           Inl e \<Rightarrow> Inl (e, w)
         | Inr w' \<Rightarrow> split_loop en audio_path chunk_duration duration is (chunks @ [chunk_path], w'))"

text \<open>
  The \<^verbatim>\<open>try\<close> block and its handler, which prints and returns the empty list.
  \<^verbatim>\<open>duration / chunk_duration\<close> raises when \<open>chunk_duration\<close> is 0; \<^verbatim>\<open>range\<close> of a negative
  number is empty.
\<close>

definition split_audio :: "env \<Rightarrow> string \<Rightarrow> int \<Rightarrow> world \<Rightarrow> string list \<times> world" where
  "split_audio en audio_path chunk_duration w =
     (case
        (case open_audio audio_path w of
           Inl e \<Rightarrow> Inl (e, w)
         | Inr duration \<Rightarrow>
             if chunk_duration = 0 then Inl (''float division by zero'', w)
             else
               let num_chunks = \<lceil>duration / of_int chunk_duration\<rceil>
               in split_loop en audio_path chunk_duration duration [0..<nat num_chunks] ([], w))
      of
        Inl (e, w') \<Rightarrow> ([], print (''Error splitting audio: '' @ e) w')
      | Inr (chunks, w') \<Rightarrow> (chunks, w'))"

section \<open>transcribe_audio_chunks\<close>

text \<open>
  Reading a chunk: \<^verbatim>\<open>sr.AudioFile(chunk_path)\<close> with \<^verbatim>\<open>adjust_for_ambient_noise\<close> and
  \<^verbatim>\<open>record\<close>. It raises when there is no such file, when the file does not hold audio, and when
  the environment makes the reading fail.
\<close>

definition read_chunk :: "env \<Rightarrow> string \<Rightarrow> (string \<Rightarrow> fcontent option) \<Rightarrow> string + unit" where
  "read_chunk en p fs =
     (case fs p of
        None \<Rightarrow> Inl ''No such file or directory''
      | Some (AudioFile d) \<Rightarrow> (case read_error en p of Some msg \<Rightarrow> Inl msg | None \<Rightarrow> Inr ())
      | Some _ \<Rightarrow> Inl ''Audio file could not be read'')"

text \<open>
  The \<^verbatim>\<open>try\<close> block after its first line: the chunk is read and then, if that did not raise,
  the recognition service is called.
\<close>

definition try_chunk :: "env \<Rightarrow> nat \<Rightarrow> string \<Rightarrow> world \<Rightarrow> outcome \<times> world" where
  "try_chunk en i p w =
     (case read_chunk en p (files w) of
        Inl e \<Rightarrow> (UnexpectedFailure e, w)
      | Inr _ \<Rightarrow> (let oc = recognize en i p in (oc, emit (Recognise i p oc) w)))"

text \<open>
  One iteration of the loop, for chunk \<open>i\<close> of \<open>n\<close> at path \<open>p\<close>: the progress line, the
  reading and the recognition, on success the text appended to \<open>full_text\<close>, otherwise the
  handler's line, and in every case the \<^verbatim>\<open>finally\<close> block removing the chunk file.
\<close>

definition transcribe_chunk ::
  "env \<Rightarrow> nat \<Rightarrow> nat \<Rightarrow> string \<Rightarrow> string list \<times> world \<Rightarrow> string list \<times> world" where
  "transcribe_chunk en n i p st =
     (let (full_text, w) = st;
          w1 = print (''Processing chunk '' @ str_nat (i + 1) @ ''/'' @ str_nat n @ ''...'') w;
          (oc, w2) = try_chunk en i p w1;
          (full_text', w3) =
            (case oc of
               Text t \<Rightarrow> (full_text @ [t], w2)
             | Unrecognized \<Rightarrow>
                 (full_text, print (''Could not understand audio in chunk '' @ str_nat (i + 1)) w2)
             | RequestFailed e \<Rightarrow>
                 (full_text, print (''Error processing chunk '' @ str_nat (i + 1) @ '': '' @ e) w2)
             | UnexpectedFailure e \<Rightarrow>
                 (full_text, print (''Unexpected error in chunk '' @ str_nat (i + 1) @ '': '' @ e) w2))
      in (full_text', remove_quietly p w3))"

fun transcribe_loop ::
  "env \<Rightarrow> nat \<Rightarrow> nat \<Rightarrow> string list \<Rightarrow> string list \<times> world \<Rightarrow> string list \<times> world" where
  "transcribe_loop en n i [] st = st"
| "transcribe_loop en n i (p # ps) st = transcribe_loop en n (Suc i) ps (transcribe_chunk en n i p st)"

definition transcribe_audio_chunks :: "env \<Rightarrow> string list \<Rightarrow> world \<Rightarrow> string \<times> world" where
  "transcribe_audio_chunks en chunks w =
     (let (full_text, w') = transcribe_loop en (length chunks) 0 chunks ([], w)
      in (str_join '' '' full_text, w'))"

text \<open>
  The outcome of chunk \<open>i\<close> at \<open>p\<close> given the files that are there, and the outcomes of the
  chunks of a list, in order: each chunk meets the files the chunks before it have left. The
  text fragments among a list of outcomes.
\<close>

definition chunk_outcome :: "env \<Rightarrow> nat \<Rightarrow> string \<Rightarrow> (string \<Rightarrow> fcontent option) \<Rightarrow> outcome" where
  "chunk_outcome en i p fs =
     (case read_chunk en p fs of Inl e \<Rightarrow> UnexpectedFailure e | Inr _ \<Rightarrow> recognize en i p)"

fun chunk_outcomes ::
  "env \<Rightarrow> nat \<Rightarrow> string list \<Rightarrow> (string \<Rightarrow> fcontent option) \<Rightarrow> outcome list" where
  "chunk_outcomes en i [] fs = []"
| "chunk_outcomes en i (p # ps) fs =
     chunk_outcome en i p fs # chunk_outcomes en (Suc i) ps (fs(p := None))"

fun text_fragments :: "outcome list \<Rightarrow> string list" where
  "text_fragments [] = []"
| "text_fragments (Text t # os) = t # text_fragments os"
| "text_fragments (_ # os) = text_fragments os"

text \<open>
  The outcome of a chunk whose file is there and holds audio, and the outcomes of the chunks of
  a list all of whose files are.
\<close>

definition outcome_of :: "env \<Rightarrow> nat \<Rightarrow> string \<Rightarrow> outcome" where
  "outcome_of en i p =
     (case read_error en p of Some msg \<Rightarrow> UnexpectedFailure msg | None \<Rightarrow> recognize en i p)"

fun outcomes_from :: "env \<Rightarrow> nat \<Rightarrow> string list \<Rightarrow> outcome list" where
  "outcomes_from en i [] = []"
| "outcomes_from en i (p # ps) = outcome_of en i p # outcomes_from en (Suc i) ps"

section \<open>compare_texts\<close>

text \<open>
  \<^verbatim>\<open>SequenceMatcher(None, a, b).ratio()\<close> of the standard library's \<^verbatim>\<open>difflib\<close>, with no junk
  predicate and the automatic junk heuristic on (the defaults the program uses). A block
  \<open>(i, j, k)\<close> says that \<open>k\<close> elements of \<open>a\<close> from \<open>i\<close> equal those of \<open>b\<close> from \<open>j\<close>.
\<close>

type_synonym block = "nat \<times> nat \<times> nat"

text \<open>
  \<^verbatim>\<open>__chain_b\<close>: \<open>b2j\<close> gives for an element the indices at which it stands in \<open>b\<close>, in
  increasing order. When \<open>b\<close> has 200 elements or more, an element standing at more than
  \<^verbatim>\<open>n // 100 + 1\<close> indices is popular and loses its entry. The dictionary is a function here:
  an element without entry has the empty list, which is how the dictionary is read.
\<close>

definition popular :: "'a list \<Rightarrow> 'a \<Rightarrow> bool" where
  "popular b elt = (200 \<le> length b \<and> length b div 100 + 1 < count_list b elt)"

definition b2j :: "'a list \<Rightarrow> 'a \<Rightarrow> nat list" where
  "b2j b elt = (if popular b elt then [] else filter (\<lambda>j. b ! j = elt) [0..<length b])"

text \<open>
  \<^verbatim>\<open>find_longest_match\<close>. \<open>match_row\<close> is the inner loop for row \<open>i\<close> over the indices \<open>j\<close> at
  which \<open>a[i]\<close> stands in \<open>b\<close>, with its \<^verbatim>\<open>continue\<close> and its \<^verbatim>\<open>break\<close>; \<open>match_rows\<close> is the
  outer loop. The dictionaries \<open>j2len\<close> and \<open>newj2len\<close> are read with the default 0 and are
  functions here. A best block starts at \<^verbatim>\<open>i-k+1\<close>, which is not negative since \<open>k\<close> counts
  elements ending at \<open>i\<close>.
\<close>

fun match_row ::
  "nat \<Rightarrow> nat \<Rightarrow> nat \<Rightarrow> (nat \<Rightarrow> nat) \<Rightarrow> nat list \<Rightarrow> (nat \<Rightarrow> nat) \<times> block \<Rightarrow> (nat \<Rightarrow> nat) \<times> block" where
  "match_row i blo bhi j2len [] st = st"
| "match_row i blo bhi j2len (j # js) st =
     (if j < blo then match_row i blo bhi j2len js st
      else if bhi \<le> j then st
      else
        let (newj2len, besti, bestj, bestsize) = st;
            k = (if j = 0 then 0 else j2len (j - 1)) + 1
        in match_row i blo bhi j2len js
             (newj2len(j := k),
              if bestsize < k then (i + 1 - k, j + 1 - k, k) else (besti, bestj, bestsize)))"

fun match_rows ::
  "'a list \<Rightarrow> 'a list \<Rightarrow> nat \<Rightarrow> nat \<Rightarrow> nat list \<Rightarrow> (nat \<Rightarrow> nat) \<times> block \<Rightarrow> (nat \<Rightarrow> nat) \<times> block" where
  "match_rows a b blo bhi [] st = st"
| "match_rows a b blo bhi (i # is) st =
     (let (j2len, best) = st;
          (newj2len, best') = match_row i blo bhi j2len (b2j b (a ! i)) (\<lambda>j. 0, best)
      in match_rows a b blo bhi is (newj2len, best'))"

text \<open>
  The two loops that extend the best block to the left and to the right as long as the elements
  are equal. The two further loops of the source extend it over junk only, and there is no
  junk: they never run.
\<close>

function extend_left :: "'a list \<Rightarrow> 'a list \<Rightarrow> nat \<Rightarrow> nat \<Rightarrow> block \<Rightarrow> block" where
  "extend_left a b alo blo (besti, bestj, bestsize) =
     (if alo < besti \<and> blo < bestj \<and> a ! (besti - 1) = b ! (bestj - 1)
      then extend_left a b alo blo (besti - 1, bestj - 1, bestsize + 1)
      else (besti, bestj, bestsize))"
  by pat_completeness auto

termination
  by (relation "measure (\<lambda>(a, b, alo, blo, besti, bestj, bestsize). besti)") auto

function extend_right :: "'a list \<Rightarrow> 'a list \<Rightarrow> nat \<Rightarrow> nat \<Rightarrow> block \<Rightarrow> block" where
  "extend_right a b ahi bhi (besti, bestj, bestsize) =
     (if besti + bestsize < ahi \<and> bestj + bestsize < bhi \<and>
         a ! (besti + bestsize) = b ! (bestj + bestsize)
      then extend_right a b ahi bhi (besti, bestj, bestsize + 1)
      else (besti, bestj, bestsize))"
  by pat_completeness auto

termination
  by (relation "measure (\<lambda>(a, b, ahi, bhi, besti, bestj, bestsize). ahi - (besti + bestsize))") auto

declare extend_left.simps [simp del] extend_right.simps [simp del]

definition find_longest_match :: "'a list \<Rightarrow> 'a list \<Rightarrow> nat \<Rightarrow> nat \<Rightarrow> nat \<Rightarrow> nat \<Rightarrow> block" where
  "find_longest_match a b alo ahi blo bhi =
     (let (j2len, best) = match_rows a b blo bhi [alo..<ahi] (\<lambda>j. 0, (alo, blo, 0))
      in extend_right a b ahi bhi (extend_left a b alo blo best))"

text \<open>
  The block found lies in the box searched, or is the empty block at its corner. The loop of
  \<^verbatim>\<open>get_matching_blocks\<close> terminates for that reason: the boxes it goes on with are smaller.
\<close>

definition in_box :: "nat \<Rightarrow> nat \<Rightarrow> nat \<Rightarrow> nat \<Rightarrow> block \<Rightarrow> bool" where
  "in_box alo ahi blo bhi m =
     (case m of (i, j, k) \<Rightarrow>
        (k = 0 \<and> i = alo \<and> j = blo) \<or> (alo \<le> i \<and> i + k \<le> ahi \<and> blo \<le> j \<and> j + k \<le> bhi))"

lemma in_box_mono: "in_box alo ahi blo bhi m \<Longrightarrow> ahi \<le> ahi' \<Longrightarrow> in_box alo ahi' blo bhi m"
  by (auto simp add: in_box_def)

lemma match_row_bounds:
  assumes "\<forall>j. j2len j \<le> i - alo \<and> j2len j \<le> j + 1 - blo" and "alo \<le> i"
  shows "(\<forall>j. nj j \<le> i + 1 - alo \<and> nj j \<le> j + 1 - blo) \<Longrightarrow>
         in_box alo (i + 1) blo bhi best \<Longrightarrow>
         match_row i blo bhi j2len js (nj, best) = (nj', best') \<Longrightarrow>
         (\<forall>j. nj' j \<le> i + 1 - alo \<and> nj' j \<le> j + 1 - blo) \<and> in_box alo (i + 1) blo bhi best'"
proof (induction js arbitrary: nj best)
  case Nil
  then show ?case by simp
next
  case (Cons j js)
  show ?case
  proof (cases "j < blo \<or> bhi \<le> j")
    case True
    then show ?thesis using Cons by (auto split: if_splits)
  next
    case False
    then have jin: "blo \<le> j" "j < bhi" by auto
    obtain bi bj bs where best: "best = (bi, bj, bs)" by (cases best)
    define k where "k = (if j = 0 then 0 else j2len (j - 1)) + 1"
    have k1: "k \<le> i + 1 - alo"
      using assms by (auto simp add: k_def le_diff_conv2)
    have k2: "k \<le> j + 1 - blo"
    proof (cases "j = 0")
      case True
      then show ?thesis using jin by (simp add: k_def)
    next
      case False
      have "j2len (j - 1) \<le> (j - 1) + 1 - blo" using assms(1) by blast
      then show ?thesis using False jin by (simp add: k_def)
    qed
    define best1 where "best1 = (if bs < k then (i + 1 - k, j + 1 - k, k) else (bi, bj, bs))"
    have step: "match_row i blo bhi j2len (j # js) (nj, best) =
        match_row i blo bhi j2len js (nj(j := k), best1)"
      using jin best by (simp add: k_def best1_def Let_def)
    have nj1: "\<forall>j'. (nj(j := k)) j' \<le> i + 1 - alo \<and> (nj(j := k)) j' \<le> j' + 1 - blo"
      using Cons.prems(1) k1 k2 by simp
    have kpos: "0 < k" by (simp add: k_def)
    have b1: "in_box alo (i + 1) blo bhi best1"
      using Cons.prems(2) k1 k2 jin kpos assms(2) best
      by (auto simp add: best1_def in_box_def)
    have "match_row i blo bhi j2len js (nj(j := k), best1) = (nj', best')"
      using Cons.prems(3) unfolding step .
    from Cons.IH [OF nj1 b1 this] show ?thesis .
  qed
qed

lemma match_rows_bounds:
  "alo \<le> i \<Longrightarrow> \<forall>j. j2len j \<le> i - alo \<and> j2len j \<le> j + 1 - blo \<Longrightarrow>
   in_box alo i blo bhi best \<Longrightarrow>
   match_rows a b blo bhi [i..<ahi] (j2len, best) = (j2len', best') \<Longrightarrow>
   in_box alo (max i ahi) blo bhi best'"
proof (induction "ahi - i" arbitrary: i j2len best)
  case 0
  then show ?case by (simp add: max_def)
next
  case (Suc n)
  then have lt: "i < ahi" by simp
  obtain nj best1 where row: "match_row i blo bhi j2len (b2j b (a ! i)) (\<lambda>j. 0, best) = (nj, best1)"
    by (cases "match_row i blo bhi j2len (b2j b (a ! i)) (\<lambda>j. 0, best)")
  have step: "match_rows a b blo bhi [i..<ahi] (j2len, best) =
      match_rows a b blo bhi [Suc i..<ahi] (nj, best1)"
    using lt row by (simp add: upt_rec [of i ahi])
  have b0: "in_box alo (i + 1) blo bhi best"
    using in_box_mono [OF Suc.prems(3), of "i + 1"] by simp
  from match_row_bounds [OF Suc.prems(2) Suc.prems(1) _ b0 row]
  have nj: "\<forall>j. nj j \<le> Suc i - alo \<and> nj j \<le> j + 1 - blo"
    and b1: "in_box alo (Suc i) blo bhi best1" by simp_all
  have rest: "match_rows a b blo bhi [Suc i..<ahi] (nj, best1) = (j2len', best')"
    using Suc.prems(4) unfolding step .
  have "n = ahi - Suc i" using Suc.hyps(2) by simp
  from Suc.hyps(1) [OF this _ nj b1 rest] Suc.prems(1)
  have "in_box alo (max (Suc i) ahi) blo bhi best'" by simp
  then show ?case using lt by (simp add: max_def)
qed

lemma extend_left_in_box:
  "in_box alo ahi blo bhi m \<Longrightarrow> in_box alo ahi blo bhi (extend_left a b alo blo m)"
proof (induction a b alo blo m rule: extend_left.induct)
  case (1 a b alo blo besti bestj bestsize)
  show ?case
  proof (cases "alo < besti \<and> blo < bestj \<and> a ! (besti - 1) = b ! (bestj - 1)")
    case True
    have "in_box alo ahi blo bhi (besti - 1, bestj - 1, bestsize + 1)"
      using "1.prems" True by (auto simp add: in_box_def)
    from "1.IH" [OF True this] True show ?thesis
      by (subst extend_left.simps) simp
  next
    case False
    then show ?thesis using "1.prems"
      by (subst extend_left.simps) auto
  qed
qed

lemma extend_right_in_box:
  "in_box alo ahi blo bhi m \<Longrightarrow> in_box alo ahi blo bhi (extend_right a b ahi bhi m)"
proof (induction a b ahi bhi m rule: extend_right.induct)
  case (1 a b ahi bhi besti bestj bestsize)
  show ?case
  proof (cases "besti + bestsize < ahi \<and> bestj + bestsize < bhi \<and>
         a ! (besti + bestsize) = b ! (bestj + bestsize)")
    case True
    have "in_box alo ahi blo bhi (besti, bestj, bestsize + 1)"
      using "1.prems" True by (auto simp add: in_box_def)
    from "1.IH" [OF True this] True show ?thesis
      by (subst extend_right.simps) simp
  next
    case False
    then show ?thesis using "1.prems"
      by (subst extend_right.simps) auto
  qed
qed

lemma find_longest_match_in_box:
  "in_box alo (max alo ahi) blo bhi (find_longest_match a b alo ahi blo bhi)"
proof -
  obtain j2len best where rows:
    "match_rows a b blo bhi [alo..<ahi] (\<lambda>j. 0, (alo, blo, 0)) = (j2len, best)"
    by (cases "match_rows a b blo bhi [alo..<ahi] (\<lambda>j. 0, (alo, blo, 0))")
  have "in_box alo alo blo bhi (alo, blo, 0)" by (simp add: in_box_def)
  from match_rows_bounds [OF _ _ this rows]
  have b: "in_box alo (max alo ahi) blo bhi best" by simp
  show ?thesis
  proof (cases "alo \<le> ahi")
    case True
    then have "in_box alo ahi blo bhi best" using b by (simp add: max_def)
    from extend_right_in_box [OF extend_left_in_box [OF this]] True rows
    show ?thesis by (simp add: find_longest_match_def max_def)
  next
    case False
    then have e: "[alo..<ahi] = []" by simp
    have "best = (alo, blo, 0)" using rows unfolding e by simp
    then show ?thesis using False
      by (simp add: find_longest_match_def rows in_box_def
          extend_left.simps [of a b alo blo alo blo 0]
          extend_right.simps [of a b ahi bhi alo blo 0])
  qed
qed

lemma find_longest_match_bounds:
  assumes "find_longest_match a b alo ahi blo bhi = (i, j, k)" "0 < k"
  shows "alo \<le> i \<and> i + k \<le> ahi \<and> blo \<le> j \<and> j + k \<le> bhi"
proof -
  have ib: "in_box alo (max alo ahi) blo bhi (i, j, k)"
    using find_longest_match_in_box [of alo ahi blo bhi a b] assms(1) by simp
  then have "alo \<le> i \<and> i + k \<le> max alo ahi \<and> blo \<le> j \<and> j + k \<le> bhi"
    using assms(2) by (simp add: in_box_def)
  then show ?thesis using assms(2) by (auto simp add: max_def split: if_splits)
qed

text \<open>
  \<^verbatim>\<open>get_matching_blocks\<close>: the loop over the boxes still to search. The source takes the next
  box from the end of its list and appends there; the end of that list is the head of this
  one.
\<close>

function blocks_loop ::
  "'a list \<Rightarrow> 'a list \<Rightarrow> (nat \<times> nat \<times> nat \<times> nat) list \<Rightarrow> block list \<Rightarrow> block list" where
  "blocks_loop a b [] matching_blocks = matching_blocks"
| "blocks_loop a b ((alo, ahi, blo, bhi) # queue) matching_blocks =
     (let (i, j, k) = find_longest_match a b alo ahi blo bhi
      in if k \<noteq> 0 then
           blocks_loop a b
             ((if i + k < ahi \<and> j + k < bhi then [(i + k, ahi, j + k, bhi)] else []) @
              (if alo < i \<and> blo < j then [(alo, i, blo, j)] else []) @ queue)
             (matching_blocks @ [(i, j, k)])
         else blocks_loop a b queue matching_blocks)"
  by pat_completeness auto

termination
proof (relation "measure (\<lambda>(a, b, queue, matching_blocks).
    sum_list (map (\<lambda>(alo, ahi, blo, bhi). 2 * (ahi - alo) + 1) queue))", goal_cases)
  case 1
  show ?case by simp
next
  case (2 a b alo ahi blo bhi queue matching_blocks x i y j k)
  then have m: "find_longest_match a b alo ahi blo bhi = (i, j, k)" and k: "0 < k" by simp_all
  from find_longest_match_bounds [OF m k] k show ?case by auto
next
  case (3 a b alo ahi blo bhi queue matching_blocks x i y j k)
  then show ?case by simp
qed

declare blocks_loop.simps [simp del]

text \<open>
  The loop that joins adjacent blocks: \<open>(i1, j1, k1)\<close> is the block to compare against, the
  second argument what is left of the sorted blocks, the third \<^verbatim>\<open>non_adjacent\<close>.
\<close>

fun collapse :: "block \<Rightarrow> block list \<Rightarrow> block list \<Rightarrow> block list" where
  "collapse (i1, j1, k1) [] non_adjacent =
     (if k1 \<noteq> 0 then non_adjacent @ [(i1, j1, k1)] else non_adjacent)"
| "collapse (i1, j1, k1) ((i2, j2, k2) # rest) non_adjacent =
     (if i1 + k1 = i2 \<and> j1 + k1 = j2 then collapse (i1, j1, k1 + k2) rest non_adjacent
      else collapse (i2, j2, k2) rest
             (if k1 \<noteq> 0 then non_adjacent @ [(i1, j1, k1)] else non_adjacent))"

text \<open>
  The blocks found, sorted as tuples, adjacent ones joined, and the closing dummy block.
\<close>

definition get_matching_blocks :: "'a list \<Rightarrow> 'a list \<Rightarrow> block list" where
  "get_matching_blocks a b =
     (let la = length a; lb = length b;
          matching_blocks = sort (blocks_loop a b [(0, la, 0, lb)] [])
      in collapse (0, 0, 0) matching_blocks [] @ [(la, lb, 0)])"

text \<open>
  \<^verbatim>\<open>_calculate_ratio\<close> and \<^verbatim>\<open>ratio\<close>. The source computes \<^verbatim>\<open>2.0 * matches / length\<close> in floating
  point; the quotient is exact here.
\<close>

definition calculate_ratio :: "nat \<Rightarrow> nat \<Rightarrow> rat" where
  "calculate_ratio matches len = (if len \<noteq> 0 then 2 * of_nat matches / of_nat len else 1)"

definition ratio :: "'a list \<Rightarrow> 'a list \<Rightarrow> rat" where
  "ratio a b =
     (let matches = sum_list (map (\<lambda>(i, j, k). k) (get_matching_blocks a b))
      in calculate_ratio matches (length a + length b))"

text \<open>
  \<open>compare_texts\<close> itself: an empty string on either side gives 0 at once.
\<close>

definition compare_texts :: "unicode_data \<Rightarrow> nat list \<Rightarrow> nat list \<Rightarrow> rat" where
  "compare_texts u original transcribed =
     (if original = [] \<or> transcribed = [] then 0
      else ratio (lower u original) (lower u transcribed))"

section \<open>process_video_file\<close>

text \<open>
  The function returns the transcript or \<^verbatim>\<open>None\<close>. Each \<^verbatim>\<open>return None\<close> is tagged here with
  the place it stands at; the caller sees \<open>returned\<close>, in which the tags are gone.
\<close>

datatype failure =
    VideoNotFound
  | ExtractionFailed
  | SegmentationFailed
  | NoTranscribableAudio
  | PersistenceFailed

definition returned :: "failure + string \<Rightarrow> string option" where
  "returned r = (case r of Inl f \<Rightarrow> None | Inr t \<Rightarrow> Some t)"

text \<open>Python's truth value of an \<^verbatim>\<open>Optional[str]\<close>.\<close>

definition truthy :: "string option \<Rightarrow> bool" where
  "truthy r = (case r of None \<Rightarrow> False | Some t \<Rightarrow> t \<noteq> [])"

definition newline :: char where
  "newline = CHR 0x0A"

definition audio_path_of :: "string \<Rightarrow> string" where
  "audio_path_of video_path =
     path_join ''output'' (splitext_root (path_basename video_path) @ ''_audio.wav'')"

definition transcript_path_of :: "string \<Rightarrow> string" where
  "transcript_path_of video_path =
     path_join ''output'' (splitext_root (path_basename video_path) @ ''_transcript.txt'')"

definition save_transcript :: "env \<Rightarrow> string \<Rightarrow> string \<Rightarrow> world \<Rightarrow> string + world" where
  "save_transcript en p t w =
     (case write_error en p of
        Some msg \<Rightarrow> Inl msg
      | None \<Rightarrow> Inr (emit (WriteText p t) (w\<lparr>files := (files w)(p \<mapsto> TextFile t)\<rparr>)))"

text \<open>
  The outer \<^verbatim>\<open>try\<close> block. Every operation in it that can raise has a handler of its own, so
  the outer \<^verbatim>\<open>except\<close> has nothing to catch; printing is taken not to fail, here and
  everywhere else.
\<close>

definition process_video_body ::
  "env \<Rightarrow> string \<Rightarrow> string \<Rightarrow> string \<Rightarrow> world \<Rightarrow> (failure + string) \<times> world" where
  "process_video_body en video_path audio_path transcript_path w =
     (let w1 = print (newline # ''Processing: '' @ path_basename video_path) w;
          w2 = print ''Extracting audio...'' w1;
          (extracted, w3) = extract_audio en video_path audio_path w2
      in if \<not> truthy extracted then (Inl ExtractionFailed, print ''Failed to extract audio'' w3)
         else
           let w4 = print ''Splitting audio into chunks...'' w3;
               (chunks, w5) = split_audio en audio_path 60 w4
           in if chunks = [] then (Inl SegmentationFailed, print ''Failed to split audio'' w5)
              else
                let w6 = print (''Processing '' @ str_nat (length chunks) @ '' audio chunks...'') w5;
                    (transcribed_text, w7) = transcribe_audio_chunks en chunks w6
                in if transcribed_text = [] then
                     (Inl NoTranscribableAudio, print ''No text was transcribed'' w7)
                   else
                     (case save_transcript en transcript_path transcribed_text w7 of
                        Inl e \<Rightarrow> (Inl PersistenceFailed, print (''Error saving transcript: '' @ e) w7)
                      | Inr w8 \<Rightarrow>
                          (Inr transcribed_text,
                           print (''=================='' @ [newline])
                             (print transcribed_text
                               (print (newline # ''=== Transcript ==='') w8)))))"

text \<open>The existence check, the \<^verbatim>\<open>try\<close> block, and the \<^verbatim>\<open>finally\<close> block removing the audio file.\<close>

definition process_video_file :: "env \<Rightarrow> string \<Rightarrow> world \<Rightarrow> (failure + string) \<times> world" where
  "process_video_file en video_path w =
     (if \<not> path_exists video_path w then
        (Inl VideoNotFound, print (''Error: Video file not found: '' @ video_path) w)
      else
        let audio_path = audio_path_of video_path;
            transcript_path = transcript_path_of video_path;
            (r, w') = process_video_body en video_path audio_path transcript_path w
        in (r, if path_exists audio_path w' then remove_quietly audio_path w' else w'))"

section \<open>main\<close>





section \<open>Notions the properties are stated with\<close>

subsection \<open>Traces\<close>


fun transcripts_written :: "event list \<Rightarrow> (string \<times> string) list" where
  "transcripts_written [] = []"
| "transcripts_written (WriteText p t # es) = (p, t) # transcripts_written es"
| "transcripts_written (_ # es) = transcripts_written es"

definition saved :: "world \<Rightarrow> (string \<times> string) list" where
  "saved w = transcripts_written (events w)"

text \<open>
  Whether an outcome is a text, and whether a file holds audio.
\<close>

definition is_text :: "outcome \<Rightarrow> bool" where
  "is_text oc = (case oc of Text t \<Rightarrow> True | _ \<Rightarrow> False)"

definition is_audio :: "fcontent option \<Rightarrow> bool" where
  "is_audio f = (case f of Some (AudioFile d) \<Rightarrow> True | _ \<Rightarrow> False)"

subsection \<open>The aggregator\<close>


definition readable :: "env \<Rightarrow> (string \<Rightarrow> fcontent option) \<Rightarrow> string \<Rightarrow> bool" where
  "readable en fs p = (read_chunk en p fs = Inr ())"


text \<open>
  The progress line of chunk \<open>i\<close> of \<open>n\<close>, and whether an event is a progress line.
\<close>

definition progress_line :: "nat \<Rightarrow> nat \<Rightarrow> string" where
  "progress_line n i = ''Processing chunk '' @ str_nat (i + 1) @ ''/'' @ str_nat n @ ''...''"




text \<open>
  The number a string of digits stands for.
\<close>

definition digits_value :: "string \<Rightarrow> nat" where
  "digits_value s = foldl (\<lambda>a c. 10 * a + (of_char c - 48)) 0 s"

subsection \<open>The segmenter\<close>

text \<open>
  The number of chunks of a track of duration \<open>d\<close> cut every \<open>c\<close> seconds; whether the chunks
  with the given indices can all be written; the write of chunk \<open>i\<close>; and whether the segmenter
  gets through: the audio opens, the division is defined, every chunk gets written.
\<close>

definition num_chunks :: "rat \<Rightarrow> int \<Rightarrow> nat" where
  "num_chunks d c = nat \<lceil>d / of_int c\<rceil>"

definition writes_ok :: "env \<Rightarrow> string \<Rightarrow> nat list \<Rightarrow> bool" where
  "writes_ok en audio_path is = list_all (\<lambda>i. write_error en (chunk_path audio_path i) = None) is"

definition chunk_write :: "string \<Rightarrow> int \<Rightarrow> rat \<Rightarrow> nat \<Rightarrow> event" where
  "chunk_write audio_path c d i =
     WriteAudio (chunk_path audio_path i) (of_int (int i * c)) (min (of_int ((int i + 1) * c)) d)"

definition split_succeeds :: "env \<Rightarrow> string \<Rightarrow> int \<Rightarrow> world \<Rightarrow> bool" where
  "split_succeeds en audio_path c w =
     (case open_audio audio_path w of
        Inl e \<Rightarrow> False
      | Inr d \<Rightarrow> c \<noteq> 0 \<and> writes_ok en audio_path [0..<num_chunks d c])"

text \<open>
  The duration of the audio at a path, 0 when there is none.
\<close>

definition audio_duration :: "string \<Rightarrow> world \<Rightarrow> rat" where
  "audio_duration audio_path w = (case open_audio audio_path w of Inl e \<Rightarrow> 0 | Inr d \<Rightarrow> d)"

subsection \<open>The unit of work\<close>

text \<open>
  Whether the extraction of the audio of a video succeeds, and the duration of the track.
\<close>

definition extraction_succeeds :: "env \<Rightarrow> string \<Rightarrow> world \<Rightarrow> bool" where
  "extraction_succeeds en video_path w =
     (case files w video_path of
        Some (VideoFile (Some d)) \<Rightarrow> 0 < d \<and> write_error en (audio_path_of video_path) = None
      | _ \<Rightarrow> False)"

definition track_duration :: "world \<Rightarrow> string \<Rightarrow> rat" where
  "track_duration w video_path =
     (case files w video_path of Some (VideoFile (Some d)) \<Rightarrow> d | _ \<Rightarrow> 0)"

text \<open>
  The world in which \<open>process_video_file\<close> calls \<open>split_audio\<close>, when it gets that far: the
  one the extraction leaves, after the line that announces the splitting.
\<close>

definition segmenter_input :: "env \<Rightarrow> string \<Rightarrow> world \<Rightarrow> world" where
  "segmenter_input en video_path w =
     print ''Splitting audio into chunks...''
       (snd (extract_audio en video_path (audio_path_of video_path)
          (print ''Extracting audio...''
             (print (newline # ''Processing: '' @ path_basename video_path) w))))"

text \<open>
  What \<open>process_video_file\<close> returns, read off the environment and the files alone: the first
  step that fails decides. It is proved below to be what the function computes.
\<close>

definition unit_outcome :: "env \<Rightarrow> string \<Rightarrow> world \<Rightarrow> failure + string" where
  "unit_outcome en video_path w =
     (if \<not> path_exists video_path w then Inl VideoNotFound
      else if \<not> extraction_succeeds en video_path w then Inl ExtractionFailed
      else
        let d = track_duration w video_path;
            audio_path = audio_path_of video_path
        in if \<not> writes_ok en audio_path [0..<num_chunks d 60] then Inl SegmentationFailed
           else
             let chunks = map (chunk_path audio_path) [0..<num_chunks d 60];
                 t = str_join '' '' (text_fragments (outcomes_from en 0 chunks))
             in if t = [] then Inl NoTranscribableAudio
                else if write_error en (transcript_path_of video_path) \<noteq> None then Inl PersistenceFailed
                else Inr t)"

text \<open>
  The line printed before a \<^verbatim>\<open>return None\<close>, where the line is a fixed one.
\<close>

definition reason_line :: "failure \<Rightarrow> string option" where
  "reason_line f =
     (case f of
        ExtractionFailed \<Rightarrow> Some ''Failed to extract audio''
      | SegmentationFailed \<Rightarrow> Some ''Failed to split audio''
      | NoTranscribableAudio \<Rightarrow> Some ''No text was transcribed''
      | _ \<Rightarrow> None)"

subsection \<open>The batch\<close>








subsection \<open>Case folding\<close>

text \<open>
  The case-folded form of a string, that is, \<^verbatim>\<open>s.casefold()\<close>: Unicode's full case folding,
  code point by code point (byte by byte for a string of ASCII characters).
\<close>

definition casefold :: "unicode_data \<Rightarrow> nat list \<Rightarrow> nat list" where
  "casefold u s =
     (if is_ascii s then map ascii_lower s
      else concat (map (\<lambda>c. case to_folded_full u c of (x, xs) \<Rightarrow> x # xs) s))"

subsection \<open>The matching blocks\<close>

text \<open>
  The number of elements matched by a list of blocks, and the extent of a box in either string.
\<close>

definition matched :: "block list \<Rightarrow> nat" where
  "matched bs = sum_list (map (\<lambda>(i, j, k). k) bs)"

definition span_a :: "nat \<times> nat \<times> nat \<times> nat \<Rightarrow> nat" where
  "span_a box = (case box of (alo, ahi, blo, bhi) \<Rightarrow> ahi - alo)"

definition span_b :: "nat \<times> nat \<times> nat \<times> nat \<Rightarrow> nat" where
  "span_b box = (case box of (alo, ahi, blo, bhi) \<Rightarrow> bhi - blo)"

text \<open>
  The value \<open>find_longest_match\<close> computes for the cell \<open>j\<close> of a row from the row before, and
  the length of the run of unpopular elements of a string that ends at an index. When a string
  is matched against itself, the cells on the diagonal hold these runs: \<open>row_done x i f\<close> says
  so of the row \<open>i\<close> held in \<open>f\<close>, \<open>row_ready x i f\<close> that \<open>f\<close> is what row \<open>i\<close> starts from.
\<close>

definition cell :: "(nat \<Rightarrow> nat) \<Rightarrow> nat \<Rightarrow> nat" where
  "cell j2len j = (if j = 0 then 0 else j2len (j - 1)) + 1"

primrec unpopular_run :: "'a list \<Rightarrow> nat \<Rightarrow> nat" where
  "unpopular_run x 0 = (if popular x (x ! 0) then 0 else 1)"
| "unpopular_run x (Suc m) = (if popular x (x ! Suc m) then 0 else unpopular_run x m + 1)"

definition row_done :: "'a list \<Rightarrow> nat \<Rightarrow> (nat \<Rightarrow> nat) \<Rightarrow> bool" where
  "row_done x i f = ((\<forall>j. f j \<le> unpopular_run x (min i j)) \<and> f i = unpopular_run x i)"

definition row_ready :: "'a list \<Rightarrow> nat \<Rightarrow> (nat \<Rightarrow> nat) \<Rightarrow> bool" where
  "row_ready x i f = (case i of 0 \<Rightarrow> f = (\<lambda>j. 0) | Suc r \<Rightarrow> row_done x r f)"

text \<open>
  \<open>ends a b r j n\<close>: the \<open>n\<close> elements of \<open>a\<close> ending at \<open>r\<close> equal those of \<open>b\<close> ending at \<open>j\<close>.
  \<open>agree a b (i, j, k)\<close>: the \<open>k\<close> elements from \<open>i\<close> and from \<open>j\<close> are equal, index by index.
  \<open>block_matches\<close>: the block lies inside both strings and the two stretches are the same
  string. \<open>box_inside\<close>: a box to search lies inside both strings.
\<close>

definition ends :: "'a list \<Rightarrow> 'a list \<Rightarrow> nat \<Rightarrow> nat \<Rightarrow> nat \<Rightarrow> bool" where
  "ends a b r j n = (\<forall>t<n. a ! (r - t) = b ! (j - t))"

definition agree :: "'a list \<Rightarrow> 'a list \<Rightarrow> block \<Rightarrow> bool" where
  "agree a b m = (case m of (i, j, k) \<Rightarrow> \<forall>t<k. a ! (i + t) = b ! (j + t))"

definition block_matches :: "'a list \<Rightarrow> 'a list \<Rightarrow> block \<Rightarrow> bool" where
  "block_matches a b m =
     (case m of (i, j, k) \<Rightarrow>
        i + k \<le> length a \<and> j + k \<le> length b \<and> take k (drop i a) = take k (drop j b))"

definition box_inside :: "'a list \<Rightarrow> 'a list \<Rightarrow> nat \<times> nat \<times> nat \<times> nat \<Rightarrow> bool" where
  "box_inside a b box = (case box of (alo, ahi, blo, bhi) \<Rightarrow> ahi \<le> length a \<and> bhi \<le> length b)"

text \<open>
  The region of a block. Two regions are apart when one lies before the other in both strings;
  a block precedes another when it ends, in both strings, no later than the other starts.
\<close>

type_synonym box = "nat \<times> nat \<times> nat \<times> nat"

definition rect :: "block \<Rightarrow> box" where
  "rect m = (case m of (i, j, k) \<Rightarrow> (i, i + k, j, j + k))"

definition before :: "box \<Rightarrow> box \<Rightarrow> bool" where
  "before r s = (case r of (alo, ahi, blo, bhi) \<Rightarrow> case s of (alo', ahi', blo', bhi') \<Rightarrow>
     ahi \<le> alo' \<and> bhi \<le> blo')"

definition apart :: "box \<Rightarrow> box \<Rightarrow> bool" where
  "apart r s = (before r s \<or> before s r)"

definition inside :: "box \<Rightarrow> box \<Rightarrow> bool" where
  "inside r s = (case r of (alo, ahi, blo, bhi) \<Rightarrow> case s of (alo', ahi', blo', bhi') \<Rightarrow>
     alo' \<le> alo \<and> ahi \<le> ahi' \<and> blo' \<le> blo \<and> bhi \<le> bhi')"

definition precedes :: "block \<Rightarrow> block \<Rightarrow> bool" where
  "precedes m m' = (case m of (i, j, k) \<Rightarrow> case m' of (i', j', k') \<Rightarrow> i + k \<le> i' \<and> j + k \<le> j')"

definition nonempty :: "block \<Rightarrow> bool" where
  "nonempty m = (case m of (i, j, k) \<Rightarrow> 0 < k)"

text \<open>
  A run of \<open>n\<close> equal elements that ends at \<open>a ! i\<close> and \<open>b ! j\<close>, stays inside the box that
  starts at \<open>alo\<close> and \<open>blo\<close> and ends before \<open>bhi\<close>, and holds no popular element.
\<close>

definition run_at :: "'a list \<Rightarrow> 'a list \<Rightarrow> nat \<Rightarrow> nat \<Rightarrow> nat \<Rightarrow> nat \<Rightarrow> nat \<Rightarrow> nat \<Rightarrow> bool" where
  "run_at a b alo blo bhi i j n =
     (alo \<le> i \<and> blo \<le> j \<and> j < bhi \<and> 0 < n \<and> n \<le> i + 1 - alo \<and> n \<le> j + 1 - blo \<and>
      ends a b i j n \<and> (\<forall>t<n. \<not> popular b (b ! (j - t))))"

subsection \<open>Longest-first matching\<close>

text \<open>
  Longest-first matching, after Ratcliff and Obershelp. A common block of a box is a
  block inside the box whose two stretches are equal, element by element. The blocks of a box
  are found longest first: a box without a common element has none; otherwise a longest common
  block of the box is taken, and with it the blocks of the box to its left and of the box to
  its right, found the same way. Which of several longest blocks is taken is left open.
\<close>

definition block_size :: "block \<Rightarrow> nat" where
  "block_size m = (case m of (i, j, k) \<Rightarrow> k)"

definition common_block :: "'a list \<Rightarrow> 'a list \<Rightarrow> box \<Rightarrow> block \<Rightarrow> bool" where
  "common_block a b bx m =
     (case bx of (alo, ahi, blo, bhi) \<Rightarrow> case m of (i, j, k) \<Rightarrow>
        alo \<le> i \<and> i + k \<le> ahi \<and> blo \<le> j \<and> j + k \<le> bhi \<and> (\<forall>t<k. a ! (i + t) = b ! (j + t)))"

inductive longest_first :: "'a list \<Rightarrow> 'a list \<Rightarrow> box \<Rightarrow> block list \<Rightarrow> bool" for a b where
  nothing:
    "\<forall>m. common_block a b (alo, ahi, blo, bhi) m \<longrightarrow> block_size m = 0 \<Longrightarrow>
     longest_first a b (alo, ahi, blo, bhi) []"
| longest:
    "0 < k \<Longrightarrow> common_block a b (alo, ahi, blo, bhi) (i, j, k) \<Longrightarrow>
     \<forall>m. common_block a b (alo, ahi, blo, bhi) m \<longrightarrow> block_size m \<le> k \<Longrightarrow>
     longest_first a b (alo, i, blo, j) left \<Longrightarrow>
     longest_first a b (i + k, ahi, j + k, bhi) right \<Longrightarrow>
     longest_first a b (alo, ahi, blo, bhi) (left @ (i, j, k) # right)"

text \<open>
  The matching as \<^verbatim>\<open>SequenceMatcher\<close> does it, with popular elements. A block is unpopular when
  none of its elements is popular in \<open>b\<close>. The block taken in a box is a common block that
  cannot be extended on either side and is at least as long as every unpopular common block
  of the box; no block is taken only when the box has no unpopular common element and does not
  begin with a common element.
\<close>

definition unpopular_block :: "'a list \<Rightarrow> block \<Rightarrow> bool" where
  "unpopular_block b m = (case m of (i, j, k) \<Rightarrow> \<forall>t<k. \<not> popular b (b ! (j + t)))"

inductive matcher_blocks :: "'a list \<Rightarrow> 'a list \<Rightarrow> box \<Rightarrow> block list \<Rightarrow> bool" for a b where
  nothing:
    "\<not> (alo < ahi \<and> blo < bhi \<and> a ! alo = b ! blo) \<Longrightarrow>
     \<forall>m. common_block a b (alo, ahi, blo, bhi) m \<and> unpopular_block b m \<longrightarrow> block_size m = 0 \<Longrightarrow>
     matcher_blocks a b (alo, ahi, blo, bhi) []"
| taken:
    "0 < k \<Longrightarrow> common_block a b (alo, ahi, blo, bhi) (i, j, k) \<Longrightarrow>
     \<forall>m. common_block a b (alo, ahi, blo, bhi) m \<and> unpopular_block b m \<longrightarrow> block_size m \<le> k \<Longrightarrow>
     \<not> (alo < i \<and> blo < j \<and> a ! (i - 1) = b ! (j - 1)) \<Longrightarrow>
     \<not> (i + k < ahi \<and> j + k < bhi \<and> a ! (i + k) = b ! (j + k)) \<Longrightarrow>
     matcher_blocks a b (alo, i, blo, j) left \<Longrightarrow>
     matcher_blocks a b (i + k, ahi, j + k, bhi) right \<Longrightarrow>
     matcher_blocks a b (alo, ahi, blo, bhi) (left @ (i, j, k) # right)"

subsection \<open>Examples\<close>

text \<open>
  An environment in which nothing fails and every chunk is recognised, and variations of it:
  the second chunk cannot be written, no chunk is understood, the output directory cannot be
  made, the input directory holds no video, the request for the second chunk fails. A world
  with one extracted audio file, one with one video, and one with three chunk files.
\<close>

text \<open>
  The Unicode data of the code points below 256 (those of Latin-1), for the examples, whose
  strings are made of such code points; a code point from 256 on is given no case here.
\<close>

definition latin1 :: unicode_data where
  "latin1 =
     \<lparr>to_lower_full =
        (\<lambda>c. (if (65 \<le> c \<and> c \<le> 90) \<or> (192 \<le> c \<and> c \<le> 222 \<and> c \<noteq> 215) then c + 32 else c, [])),
      to_folded_full =
        (\<lambda>c. if c = 223 then (115, [115])
             else if c = 181 then (956, [])
             else (if (65 \<le> c \<and> c \<le> 90) \<or> (192 \<le> c \<and> c \<le> 222 \<and> c \<noteq> 215) then c + 32 else c, [])),
      is_cased =
        (\<lambda>c. (65 \<le> c \<and> c \<le> 90) \<or> (97 \<le> c \<and> c \<le> 122) \<or> c = 170 \<or> c = 181 \<or> c = 186 \<or>
             (192 \<le> c \<and> c \<le> 255 \<and> c \<noteq> 215 \<and> c \<noteq> 247)),
      is_case_ignorable = (\<lambda>c. c \<in> {39, 46, 58, 94, 96, 168, 173, 175, 180, 183, 184})\<rparr>"

definition env_ok :: env where
  "env_ok = \<lparr>recognize = (\<lambda>i p. Text ''hello''), read_error = (\<lambda>p. None),
             write_error = (\<lambda>p. None),
             makedirs_error = (\<lambda>p. None), listdir = (\<lambda>p. Inr [''talk.mp4'']),
             unicode = latin1\<rparr>"

definition env_disk_full :: env where
  "env_disk_full = env_ok\<lparr>write_error :=
      (\<lambda>p. if p = ''output/talk_audio_chunk_1.wav'' then Some ''disk full'' else None)\<rparr>"

definition env_silent :: env where
  "env_silent = env_ok\<lparr>recognize := (\<lambda>i p. Unrecognized)\<rparr>"



definition audio_world :: "rat \<Rightarrow> world" where
  "audio_world d = \<lparr>files = [''output/talk_audio.wav'' \<mapsto> AudioFile d], events = []\<rparr>"

definition video_world :: "rat \<Rightarrow> world" where
  "video_world d = \<lparr>files = [''input/talk.mp4'' \<mapsto> VideoFile (Some d)], events = []\<rparr>"

definition chunks_world :: world where
  "chunks_world =
     \<lparr>files = [''c0.wav'' \<mapsto> AudioFile 60, ''c1.wav'' \<mapsto> AudioFile 60, ''c2.wav'' \<mapsto> AudioFile 30],
      events = []\<rparr>"

definition env_one_request_fails :: env where
  "env_one_request_fails = env_ok\<lparr>recognize :=
      (\<lambda>i p. if i = 1 then RequestFailed ''quota exceeded'' else Text (''part'' @ str_nat (i + 1)))\<rparr>"

text \<open>
  A word with a sharp s (the code point 223), and the same word in capitals.
\<close>

definition sharp_s_word :: "nat list" where
  "sharp_s_word = codepoints ''stra'' @ [223] @ codepoints ''e''"

definition capitals_word :: "nat list" where
  "capitals_word = codepoints ''STRASSE''"

text \<open>
  A reference and a transcript of 200 characters each that share a stretch of 199 characters:
  the transcript is the letter ``a'' (the code point 97) repeated, the reference the same but
  for its first character, a ``b''.
\<close>

definition repeated_reference :: "nat list" where
  "repeated_reference = 98 # replicate 199 97"

definition repeated_transcript :: "nat list" where
  "repeated_transcript = replicate 200 97"

section \<open>The aggregator\<close>


lemma files_print [simp]: "files (print m w) = files w"
  by (simp add: print_def emit_def)

lemma events_print: "events (print m w) = events w @ [Print m]"
  by (simp add: print_def emit_def)

lemma events_remove_quietly:
  "events (remove_quietly p w) = events w @ (if files w p = None then [] else [Remove p])"
  by (simp add: remove_quietly_def os_remove_def emit_def)

lemma files_remove_quietly: "files (remove_quietly p w) = (files w)(p := None)"
  by (auto simp add: remove_quietly_def os_remove_def emit_def)

lemma try_chunk_unreadable:
  "\<not> readable en (files w) p \<Longrightarrow>
   \<exists>e. try_chunk en i p w = (UnexpectedFailure e, w) \<and> chunk_outcome en i p (files w) = UnexpectedFailure e"
  by (cases "read_chunk en p (files w)") (simp_all add: try_chunk_def chunk_outcome_def readable_def)

lemma try_chunk_readable:
  "readable en (files w) p \<Longrightarrow>
   try_chunk en i p w = (recognize en i p, emit (Recognise i p (recognize en i p)) w) \<and>
   chunk_outcome en i p (files w) = recognize en i p"
  by (simp add: try_chunk_def chunk_outcome_def readable_def Let_def)

lemma fst_transcribe_chunk:
  "fst (transcribe_chunk en n i p (ft, w)) = ft @ text_fragments [chunk_outcome en i p (files w)]"
proof (cases "readable en (files w) p")
  case True
  from try_chunk_readable [of en "print (progress_line n i) w" p i] True
  show ?thesis
    by (cases "recognize en i p") (simp_all add: transcribe_chunk_def progress_line_def Let_def)
next
  case False
  from try_chunk_unreadable [of en "print (progress_line n i) w" p i] False
  show ?thesis
    by (auto simp add: transcribe_chunk_def progress_line_def Let_def)
qed



lemma files_transcribe_chunk:
  "files (snd (transcribe_chunk en n i p (ft, w))) = (files w)(p := None)"
proof (cases "readable en (files w) p")
  case True
  from try_chunk_readable [of en "print (progress_line n i) w" p i] True
  show ?thesis
    by (cases "recognize en i p")
       (simp_all add: transcribe_chunk_def progress_line_def Let_def files_remove_quietly
          print_def emit_def)
next
  case False
  from try_chunk_unreadable [of en "print (progress_line n i) w" p i] False
  show ?thesis
    by (auto simp add: transcribe_chunk_def progress_line_def Let_def files_remove_quietly
          print_def emit_def)
qed

lemma text_fragments_Cons: "text_fragments (oc # os) = text_fragments [oc] @ text_fragments os"
  by (cases oc) simp_all

lemma fst_transcribe_loop:
  "fst (transcribe_loop en n i ps (ft, w)) = ft @ text_fragments (chunk_outcomes en i ps (files w))"
proof (induction ps arbitrary: i ft w)
  case Nil
  show ?case by simp
next
  case (Cons p ps)
  obtain ft' w' where st: "transcribe_chunk en n i p (ft, w) = (ft', w')"
    by (cases "transcribe_chunk en n i p (ft, w)")
  have ft': "ft' = ft @ text_fragments [chunk_outcome en i p (files w)]"
    using fst_transcribe_chunk [of en n i p ft w] st by simp
  have fs: "files w' = (files w)(p := None)"
    using files_transcribe_chunk [of en n i p ft w] st by simp
  have "fst (transcribe_loop en n i (p # ps) (ft, w)) =
      ft' @ text_fragments (chunk_outcomes en (Suc i) ps (files w'))"
    using Cons.IH [of "Suc i" ft' w'] st by simp
  also have "\<dots> = ft @ text_fragments (chunk_outcome en i p (files w) #
      chunk_outcomes en (Suc i) ps ((files w)(p := None)))"
    unfolding ft' fs
    using text_fragments_Cons [of "chunk_outcome en i p (files w)"
        "chunk_outcomes en (Suc i) ps ((files w)(p := None))"]
    by simp
  finally show ?case by simp
qed













lemma fst_transcribe_audio_chunks:
  "fst (transcribe_audio_chunks en chunks w) =
     str_join '' '' (text_fragments (chunk_outcomes en 0 chunks (files w)))"
  using fst_transcribe_loop [of en "length chunks" 0 chunks "[]" w]
  by (cases "transcribe_loop en (length chunks) 0 chunks ([], w)")
     (simp add: transcribe_audio_chunks_def)



lemma length_chunk_outcomes: "length (chunk_outcomes en i ps fs) = length ps"
  by (induction ps arbitrary: i fs) simp_all

lemma chunk_outcome_audio: "is_audio (fs p) \<Longrightarrow> chunk_outcome en i p fs = outcome_of en i p"
  by (auto simp add: chunk_outcome_def outcome_of_def read_chunk_def is_audio_def
      split: option.splits fcontent.splits)

lemma chunk_outcomes_present:
  "distinct ps \<Longrightarrow> list_all (\<lambda>p. is_audio (fs p)) ps \<Longrightarrow>
   chunk_outcomes en i ps fs = outcomes_from en i ps"
proof (induction ps arbitrary: i fs)
  case Nil
  show ?case by simp
next
  case (Cons p ps)
  from Cons.prems have d: "distinct ps" and a: "is_audio (fs p)" by simp_all
  from Cons.prems have l: "list_all (\<lambda>q. is_audio ((fs(p := None)) q)) ps"
    by (auto simp add: list_all_iff)
  have "chunk_outcomes en (Suc i) ps (fs(p := None)) = outcomes_from en (Suc i) ps"
    by (rule Cons.IH [OF d l])
  then show ?case using a by (simp add: chunk_outcome_audio)
qed




text \<open>
  C1. Whatever the chunks, the files and the environment, the transcript returned by
  \<open>transcribe_audio_chunks\<close> is the fragments of the chunks whose outcome is a text, in chunk
  order, joined by single spaces. Every chunk has its outcome: a chunk that cannot be read, that
  is not recognised or whose request fails adds nothing, no placeholder either, and the chunks
  after it are still processed. When the chunks are distinct files that hold audio, the
  outcomes are those the environment assigns, whatever they are.
\<close>

theorem transcript_is_join_of_text_fragments:
  "fst (transcribe_audio_chunks en chunks w) =
     str_join '' '' (text_fragments (chunk_outcomes en 0 chunks (files w)))
   \<and> length (chunk_outcomes en 0 chunks (files w)) = length chunks
   \<and> (distinct chunks \<and> list_all (\<lambda>p. is_audio (files w p)) chunks \<longrightarrow>
        chunk_outcomes en 0 chunks (files w) = outcomes_from en 0 chunks)"
  by (simp add: fst_transcribe_audio_chunks length_chunk_outcomes chunk_outcomes_present)

text \<open>
  C1 at three chunks the request for the second of which fails while the other two are
  recognised: the transcript is the first and the third text.
\<close>

theorem transcript_is_join_of_text_fragments_witness:
  "distinct [''c0.wav'', ''c1.wav'', ''c2.wav'']
   \<and> list_all (\<lambda>p. is_audio (files chunks_world p)) [''c0.wav'', ''c1.wav'', ''c2.wav'']
   \<and> outcomes_from env_one_request_fails 0 [''c0.wav'', ''c1.wav'', ''c2.wav''] =
       [Text ''part1'', RequestFailed ''quota exceeded'', Text ''part3'']
   \<and> fst (transcribe_audio_chunks env_one_request_fails [''c0.wav'', ''c1.wav'', ''c2.wav''] chunks_world) =
       ''part1 part3''"
proof -
  have h1: "distinct [''c0.wav'', ''c1.wav'', ''c2.wav'']" by simp
  have h2: "list_all (\<lambda>p. is_audio (files chunks_world p)) [''c0.wav'', ''c1.wav'', ''c2.wav'']"
    by code_simp
  have o: "outcomes_from env_one_request_fails 0 [''c0.wav'', ''c1.wav'', ''c2.wav''] =
       [Text ''part1'', RequestFailed ''quota exceeded'', Text ''part3'']"
    by code_simp
  note t = transcript_is_join_of_text_fragments
    [of env_one_request_fails "[''c0.wav'', ''c1.wav'', ''c2.wav'']" chunks_world]
  from t h1 h2 have "chunk_outcomes env_one_request_fails 0 [''c0.wav'', ''c1.wav'', ''c2.wav'']
      (files chunks_world) = outcomes_from env_one_request_fails 0 [''c0.wav'', ''c1.wav'', ''c2.wav'']"
    by blast
  with t o have "fst (transcribe_audio_chunks env_one_request_fails
      [''c0.wav'', ''c1.wav'', ''c2.wav''] chunks_world) = ''part1 part3''"
    by simp
  with h1 h2 o show ?thesis by blast
qed






section \<open>The segmenter\<close>

lemma split_loop_ok:
  "writes_ok en ap is \<Longrightarrow>
   \<exists>w'. split_loop en ap c d is (chunks, w) = Inr (chunks @ map (chunk_path ap) is, w') \<and>
        events w' = events w @ map (chunk_write ap c d) is"
proof (induction "is" arbitrary: chunks w)
  case Nil
  show ?case by simp
next
  case (Cons i "is")
  from Cons.prems have ok: "write_error en (chunk_path ap i) = None" and rest: "writes_ok en ap is"
    by (simp_all add: writes_ok_def)
  define s where "s = (of_int (int i * c) :: rat)"
  define e where "e = min (of_int ((int i + 1) * c)) d"
  define w1 where "w1 = emit (WriteAudio (chunk_path ap i) s e)
     (w\<lparr>files := (files w)(chunk_path ap i \<mapsto> AudioFile (e - s))\<rparr>)"
  have step: "split_loop en ap c d (i # is) (chunks, w) =
      split_loop en ap c d is (chunks @ [chunk_path ap i], w1)"
    using ok by (simp add: write_audiofile_def Let_def s_def e_def w1_def)
  have ev: "events w1 = events w @ [chunk_write ap c d i]"
    by (simp add: w1_def emit_def chunk_write_def s_def e_def)
  from Cons.IH [OF rest, of "chunks @ [chunk_path ap i]" w1]
  obtain w' where "split_loop en ap c d is (chunks @ [chunk_path ap i], w1) =
        Inr ((chunks @ [chunk_path ap i]) @ map (chunk_path ap) is, w')"
      and "events w' = events w1 @ map (chunk_write ap c d) is"
    by blast
  then show ?case using step ev by simp
qed

lemma split_loop_fail:
  "\<not> writes_ok en ap is \<Longrightarrow> \<exists>e w'. split_loop en ap c d is (chunks, w) = Inl (e, w')"
proof (induction "is" arbitrary: chunks w)
  case Nil
  then show ?case by (simp add: writes_ok_def)
next
  case (Cons i "is")
  show ?case
  proof (cases "write_error en (chunk_path ap i)")
    case (Some msg)
    then show ?thesis by (simp add: write_audiofile_def Let_def)
  next
    case None
    with Cons.prems have "\<not> writes_ok en ap is" by (simp add: writes_ok_def)
    from Cons.IH [OF this] show ?thesis using None
      by (simp add: write_audiofile_def Let_def)
  qed
qed

lemma split_audio_ok:
  assumes "open_audio ap w = Inr d" "c \<noteq> 0" "writes_ok en ap [0..<num_chunks d c]"
  shows "fst (split_audio en ap c w) = map (chunk_path ap) [0..<num_chunks d c]
       \<and> events (snd (split_audio en ap c w)) =
           events w @ map (chunk_write ap c d) [0..<num_chunks d c]"
proof -
  from split_loop_ok [OF assms(3), of c d "[]" w]
  obtain w' where l: "split_loop en ap c d [0..<num_chunks d c] ([], w) =
        Inr (map (chunk_path ap) [0..<num_chunks d c], w')"
      and e: "events w' = events w @ map (chunk_write ap c d) [0..<num_chunks d c]"
    by auto
  have "split_audio en ap c w = (map (chunk_path ap) [0..<num_chunks d c], w')"
    using assms(1,2) l by (simp add: split_audio_def num_chunks_def)
  then show ?thesis using e by simp
qed

lemma split_audio_fail:
  assumes "\<not> split_succeeds en ap c w"
  shows "fst (split_audio en ap c w) = []"
proof (cases "open_audio ap w")
  case (Inl e)
  then show ?thesis by (simp add: split_audio_def)
next
  case (Inr d)
  show ?thesis
  proof (cases "c = 0")
    case True
    then show ?thesis using Inr by (simp add: split_audio_def)
  next
    case False
    with assms Inr have "\<not> writes_ok en ap [0..<num_chunks d c]"
      by (simp add: split_succeeds_def)
    from split_loop_fail [OF this, of c d "[]" w]
    obtain e w' where "split_loop en ap c d [0..<num_chunks d c] ([], w) = Inl (e, w')"
      by blast
    then show ?thesis using Inr False by (simp add: split_audio_def num_chunks_def)
  qed
qed

lemma replace_from_hit:
  assumes "old \<noteq> []"
  shows "\<exists>pre. \<forall>new. \<exists>rest. replace_from old new 0 (xs @ old @ ys) = pre @ new @ rest"
proof (induction xs)
  case Nil
  obtain c cs where old: "old = c # cs" using assms by (cases old) auto
  have "replace_from old new 0 (old @ ys) = [] @ new @ replace_from old new (length old - 1) (cs @ ys)" for new
    by (simp add: old)
  then show ?case by (metis append_Nil)
next
  case (Cons x xs)
  then obtain pre where pre: "\<forall>new. \<exists>rest. replace_from old new 0 (xs @ old @ ys) = pre @ new @ rest"
    by blast
  show ?case
  proof (cases "take (length old) (x # xs @ old @ ys) = old")
    case True
    then have "replace_from old new 0 ((x # xs) @ old @ ys) =
        [] @ new @ replace_from old new (length old - 1) (xs @ old @ ys)" for new
      by simp
    then show ?thesis by (metis append_Nil)
  next
    case False
    have "\<exists>rest. replace_from old new 0 ((x # xs) @ old @ ys) = (x # pre) @ new @ rest" for new
    proof -
      from pre obtain rest where "replace_from old new 0 (xs @ old @ ys) = pre @ new @ rest"
        by blast
      then show ?thesis using False by simp
    qed
    then show ?thesis by blast
  qed
qed

lemma of_char_digit: "d < 10 \<Longrightarrow> (of_char (digit_char d) :: nat) = 48 + d"
  by (simp add: digit_char_def)

lemma str_nat_digits: "c \<in> set (str_nat n) \<Longrightarrow> 48 \<le> (of_char c :: nat) \<and> (of_char c :: nat) \<le> 57"
proof (induction n arbitrary: c rule: str_nat.induct)
  case (1 n)
  show ?case
  proof (cases "n < 10")
    case True
    then have "c = digit_char n" using "1.prems" by (simp add: str_nat.simps [of n])
    then show ?thesis using True by (simp add: of_char_digit)
  next
    case False
    then have "c \<in> set (str_nat (n div 10)) \<or> c = digit_char (n mod 10)"
      using "1.prems" by (auto simp add: str_nat.simps [of n])
    then show ?thesis
    proof
      assume "c \<in> set (str_nat (n div 10))"
      from "1.IH" [OF False this] show ?thesis .
    next
      assume "c = digit_char (n mod 10)"
      then show ?thesis by (simp add: of_char_digit)
    qed
  qed
qed

lemma digits_value_str_nat: "digits_value (str_nat n) = n"
proof (induction n rule: str_nat.induct)
  case (1 n)
  show ?case
  proof (cases "n < 10")
    case True
    then show ?thesis by (simp add: str_nat.simps [of n] digits_value_def of_char_digit)
  next
    case False
    from "1.IH" [OF False] have "foldl (\<lambda>a c. 10 * a + (of_char c - 48)) 0 (str_nat (n div 10)) = n div 10"
      by (simp add: digits_value_def)
    then show ?thesis using False
      by (simp add: str_nat.simps [of n] digits_value_def of_char_digit)
  qed
qed

lemma str_nat_inj: "str_nat i = str_nat j \<Longrightarrow> i = j"
  by (metis digits_value_str_nat)

lemma split_at_first:
  assumes "xs @ c # r = ys @ c # r'" "c \<notin> set xs" "c \<notin> set ys"
  shows "xs = ys"
proof -
  have "takeWhile (\<lambda>x. x \<noteq> c) (xs @ c # r) = xs" "takeWhile (\<lambda>x. x \<noteq> c) (ys @ c # r') = ys"
    using assms(2,3) by (auto simp add: takeWhile_tail)
  then show ?thesis using assms(1) by simp
qed

lemma audio_path_wav: "\<exists>xs. audio_path_of vp = xs @ ''.wav'' @ []"
proof -
  define x where "x = splitext_root (path_basename vp)"
  have "path_join ''output'' (x @ ''_audio.wav'') = (x @ ''_audio'') @ ''.wav'' @ [] \<or>
        path_join ''output'' (x @ ''_audio.wav'') = (''output/'' @ x @ ''_audio'') @ ''.wav'' @ []"
    by (simp add: path_join_def endswith_def)
  then show ?thesis unfolding audio_path_of_def x_def [symmetric] by blast
qed

lemma chunk_path_inj:
  assumes "chunk_path (audio_path_of vp) i = chunk_path (audio_path_of vp) j"
  shows "i = j"
proof -
  obtain xs where ap: "audio_path_of vp = xs @ ''.wav'' @ []" using audio_path_wav by blast
  have ne: "''.wav'' \<noteq> []" by simp
  from replace_from_hit [OF ne, of xs "[]"]
  obtain pre where pre: "\<forall>new. \<exists>rest. replace_from ''.wav'' new 0 (xs @ ''.wav'' @ []) = pre @ new @ rest"
    by blast
  have cp: "\<exists>rest. chunk_path (audio_path_of vp) k = pre @ (''_chunk_'' @ str_nat k @ ''.wav'') @ rest" for k
  proof -
    from pre obtain rest where
      "replace_from ''.wav'' (''_chunk_'' @ str_nat k @ ''.wav'') 0 (xs @ ''.wav'' @ []) =
         pre @ (''_chunk_'' @ str_nat k @ ''.wav'') @ rest"
      by blast
    then have "chunk_path (audio_path_of vp) k = pre @ (''_chunk_'' @ str_nat k @ ''.wav'') @ rest"
      unfolding chunk_path_def str_replace_def ap by simp
    then show ?thesis by blast
  qed
  from cp [of i] obtain ri where i: "chunk_path (audio_path_of vp) i = pre @ (''_chunk_'' @ str_nat i @ ''.wav'') @ ri"
    by blast
  from cp [of j] obtain rj where j: "chunk_path (audio_path_of vp) j = pre @ (''_chunk_'' @ str_nat j @ ''.wav'') @ rj"
    by blast
  from assms i j have e: "str_nat i @ CHR ''.'' # (''wav'' @ ri) = str_nat j @ CHR ''.'' # (''wav'' @ rj)"
    by simp
  have nodot: "CHR ''.'' \<notin> set (str_nat k)" for k
    using str_nat_digits [of "CHR ''.''" k] by auto
  from e nodot [of i] nodot [of j] have "str_nat i = str_nat j" by (rule split_at_first)
  then show ?thesis by (rule str_nat_inj)
qed

text \<open>
  The chunks of an extracted audio file have paths of their own: the file name ends in
  \<^verbatim>\<open>.wav\<close>, which is replaced by a text with the number of the chunk.
\<close>

lemma distinct_chunk_paths: "distinct (map (chunk_path (audio_path_of vp)) [0..<n])"
  by (simp add: distinct_map inj_on_def) (use chunk_path_inj in blast)

lemma is_audio_write:
  "write_audiofile en p s e w = Inr w' \<Longrightarrow>
   is_audio (files w' p) \<and> (\<forall>q. is_audio (files w q) \<longrightarrow> is_audio (files w' q))"
proof (cases "write_error en p")
  case None
  assume "write_audiofile en p s e w = Inr w'"
  with None have fs: "files w' = (files w)(p \<mapsto> AudioFile (e - s))"
    by (auto simp add: write_audiofile_def emit_def)
  show ?thesis unfolding fs by (simp add: is_audio_def)
next
  case (Some msg)
  assume "write_audiofile en p s e w = Inr w'"
  with Some show ?thesis by (simp add: write_audiofile_def)
qed

lemma split_loop_files:
  "split_loop en ap c d is (chunks, w) = Inr (cs, w') \<Longrightarrow>
   (\<forall>q. is_audio (files w q) \<longrightarrow> is_audio (files w' q)) \<and>
   (\<forall>i \<in> set is. is_audio (files w' (chunk_path ap i)))"
proof (induction "is" arbitrary: chunks w)
  case Nil
  then show ?case by simp
next
  case (Cons i "is")
  show ?case
  proof (cases "write_audiofile en (chunk_path ap i) (of_int (int i * c))
                  (min (of_int ((int i + 1) * c)) d) w")
    case (Inl msg)
    with Cons.prems show ?thesis by (simp add: Let_def)
  next
    case (Inr w1)
    with Cons.prems have "split_loop en ap c d is (chunks @ [chunk_path ap i], w1) = Inr (cs, w')"
      by (simp add: Let_def)
    from Cons.IH [OF this] is_audio_write [OF Inr] show ?thesis by auto
  qed
qed

lemma split_audio_files:
  assumes "open_audio ap w = Inr d" "c \<noteq> 0" "writes_ok en ap [0..<num_chunks d c]"
  shows "list_all (\<lambda>p. is_audio (files (snd (split_audio en ap c w)) p))
           (map (chunk_path ap) [0..<num_chunks d c])"
proof -
  from split_loop_ok [OF assms(3), of c d "[]" w]
  obtain w' where l: "split_loop en ap c d [0..<num_chunks d c] ([], w) =
        Inr (map (chunk_path ap) [0..<num_chunks d c], w')"
    by auto
  have "split_audio en ap c w = (map (chunk_path ap) [0..<num_chunks d c], w')"
    using assms(1,2) l by (simp add: split_audio_def num_chunks_def)
  then show ?thesis using split_loop_files [OF l] by (simp add: list_all_iff)
qed

lemma span_nonempty:
  assumes "0 < c" "i < num_chunks d c"
  shows "(of_int (int i * c) :: rat) < min (of_int ((int i + 1) * c)) d"
proof -
  have cpos: "(0::rat) < of_int c" using assms(1) by simp
  from assms(2) have "int i < \<lceil>d / of_int c\<rceil>" by (simp add: num_chunks_def)
  then have "of_int (int i) < d / of_int c" by (simp only: less_ceiling_iff)
  then have "of_int (int i * c) < d" using cpos by (simp add: pos_less_divide_eq)
  moreover have "(of_int (int i * c) :: rat) < of_int ((int i + 1) * c)"
    using assms(1) by (simp add: algebra_simps)
  ultimately show ?thesis by simp
qed

lemma num_chunks_ceiling:
  assumes "0 \<le> d" "0 < c"
  shows "int (num_chunks d c) = \<lceil>d / of_int c\<rceil>"
proof -
  have "0 \<le> d / of_int c" using assms by simp
  then have "0 \<le> \<lceil>d / of_int c\<rceil>" by (simp add: ceiling_le_iff le_ceiling_iff)
  then show ?thesis by (simp add: num_chunks_def)
qed

text \<open>
  C2. When the audio opens with duration \<open>d \<ge> 0\<close>, the chunk duration \<open>c\<close> is positive and every
  chunk gets written, \<open>split_audio\<close> returns exactly \<open>\<lceil>d / c\<rceil>\<close> chunks, the paths of the chunks
  \<open>0, 1, ...\<close> in order; chunk \<open>i\<close> is written from the span \<open>[i * c, min ((i + 1) * c) d)\<close>, which
  is never empty; nothing else happens, no error line in particular. For \<open>d = 0\<close> the result is
  the empty list and the world is untouched.
\<close>

theorem split_audio_chunk_count:
  assumes "open_audio audio_path w = Inr d" and "0 \<le> d" and "0 < c"
    and "writes_ok en audio_path [0..<num_chunks d c]"
  shows "int (length (fst (split_audio en audio_path c w))) = \<lceil>d / of_int c\<rceil>
       \<and> fst (split_audio en audio_path c w) = map (chunk_path audio_path) [0..<num_chunks d c]
       \<and> events (snd (split_audio en audio_path c w)) =
           events w @
           map (\<lambda>i. WriteAudio (chunk_path audio_path i) (of_int (int i * c))
                      (min (of_int ((int i + 1) * c)) d)) [0..<num_chunks d c]
       \<and> (\<forall>i < num_chunks d c.
             (of_int (int i * c) :: rat) < min (of_int ((int i + 1) * c)) d)
       \<and> (d = 0 \<longrightarrow> split_audio en audio_path c w = ([], w))"
proof -
  have c0: "c \<noteq> 0" using assms(3) by simp
  note ok = split_audio_ok [OF assms(1) c0 assms(4)]
  have cw: "chunk_write audio_path c d = (\<lambda>i. WriteAudio (chunk_path audio_path i) (of_int (int i * c))
                      (min (of_int ((int i + 1) * c)) d))"
    by (rule ext) (simp add: chunk_write_def)
  have len: "int (length (fst (split_audio en audio_path c w))) = \<lceil>d / of_int c\<rceil>"
    using ok num_chunks_ceiling [OF assms(2,3)] by simp
  have spans: "\<forall>i < num_chunks d c. (of_int (int i * c) :: rat) < min (of_int ((int i + 1) * c)) d"
    using span_nonempty [OF assms(3)] by blast
  have zero: "d = 0 \<longrightarrow> split_audio en audio_path c w = ([], w)"
    using assms(1) c0 by (simp add: split_audio_def)
  from len ok spans zero show ?thesis unfolding cw by blast
qed

text \<open>C2 at a track of 150 seconds cut every 60 seconds: three chunks.\<close>

theorem split_audio_chunk_count_witness:
  "open_audio ''output/talk_audio.wav'' (audio_world 150) = Inr 150 \<and> (0::rat) \<le> 150 \<and> (0::int) < 60
   \<and> writes_ok env_ok ''output/talk_audio.wav'' [0..<num_chunks 150 60]
   \<and> int (length (fst (split_audio env_ok ''output/talk_audio.wav'' 60 (audio_world 150)))) = \<lceil>150 / of_int 60 :: rat\<rceil>
   \<and> \<lceil>150 / of_int 60 :: rat\<rceil> = 3
   \<and> fst (split_audio env_ok ''output/talk_audio.wav'' 60 (audio_world 150)) =
       [''output/talk_audio_chunk_0.wav'', ''output/talk_audio_chunk_1.wav'',
        ''output/talk_audio_chunk_2.wav'']"
proof -
  have h1: "open_audio ''output/talk_audio.wav'' (audio_world 150) = Inr 150" by code_simp
  have h2: "(0::rat) \<le> 150" by simp
  have h3: "(0::int) < 60" by simp
  have h4: "writes_ok env_ok ''output/talk_audio.wav'' [0..<num_chunks 150 60]" by code_simp
  have n: "\<lceil>150 / of_int 60 :: rat\<rceil> = 3" by code_simp
  have paths: "map (chunk_path ''output/talk_audio.wav'') [0..<num_chunks 150 60] =
       [''output/talk_audio_chunk_0.wav'', ''output/talk_audio_chunk_1.wav'',
        ''output/talk_audio_chunk_2.wav'']" by code_simp
  from split_audio_chunk_count [OF h1 h2 h3 h4] h1 h2 h3 h4 n paths show ?thesis
    by simp
qed

lemma split_audio_fail_prints:
  assumes "\<not> split_succeeds en ap c w"
  shows "\<exists>e es. events (snd (split_audio en ap c w)) = es @ [Print (''Error splitting audio: '' @ e)]"
proof (cases "open_audio ap w")
  case (Inl e)
  then show ?thesis by (simp add: split_audio_def events_print)
next
  case (Inr d)
  show ?thesis
  proof (cases "c = 0")
    case True
    then show ?thesis using Inr by (simp add: split_audio_def events_print)
  next
    case False
    with assms Inr have "\<not> writes_ok en ap [0..<num_chunks d c]"
      by (simp add: split_succeeds_def)
    from split_loop_fail [OF this, of c d "[]" w]
    obtain e w' where "split_loop en ap c d [0..<num_chunks d c] ([], w) = Inl (e, w')"
      by blast
    then show ?thesis using Inr False by (simp add: split_audio_def num_chunks_def events_print)
  qed
qed

lemma split_audio_succeeds:
  assumes "split_succeeds en ap c w"
  shows "fst (split_audio en ap c w) = map (chunk_path ap) [0..<num_chunks (audio_duration ap w) c]
       \<and> events (snd (split_audio en ap c w)) =
           events w @ map (chunk_write ap c (audio_duration ap w)) [0..<num_chunks (audio_duration ap w) c]"
proof -
  from assms obtain d where d: "open_audio ap w = Inr d" "c \<noteq> 0"
      "writes_ok en ap [0..<num_chunks d c]"
    by (auto simp add: split_succeeds_def split: sum.splits)
  from split_audio_ok [OF d] d(1) show ?thesis by (simp add: audio_duration_def)
qed

text \<open>
  C10, as the code has it. What \<open>split_audio\<close> returns is all or nothing: the paths of all the
  chunks when the audio opens, the chunk duration \<open>c\<close> is not 0 and every chunk gets written,
  and the empty list otherwise, never some of the paths. When the segmenter fails it prints
  its error and the result is empty. But an empty result does not tell a failure: the result
  is also empty, with nothing printed, when there is nothing to cut, the quotient of the
  duration and \<open>c\<close> not being positive. For audio of positive duration and a positive \<open>c\<close> the
  result is empty exactly when the segmenter fails.
\<close>

theorem split_audio_all_or_nothing:
  "fst (split_audio en audio_path c w) =
     (case open_audio audio_path w of
        Inl e \<Rightarrow> []
      | Inr d \<Rightarrow>
          if c \<noteq> 0 \<and> writes_ok en audio_path [0..<num_chunks d c]
          then map (chunk_path audio_path) [0..<num_chunks d c] else [])
   \<and> (\<not> split_succeeds en audio_path c w \<longrightarrow>
        fst (split_audio en audio_path c w) = [] \<and>
        (\<exists>e es. events (snd (split_audio en audio_path c w)) =
           es @ [Print (''Error splitting audio: '' @ e)]))
   \<and> (split_succeeds en audio_path c w \<longrightarrow>
        fst (split_audio en audio_path c w) =
          map (chunk_path audio_path) [0..<num_chunks (audio_duration audio_path w) c] \<and>
        events (snd (split_audio en audio_path c w)) =
          events w @ map (chunk_write audio_path c (audio_duration audio_path w))
            [0..<num_chunks (audio_duration audio_path w) c])
   \<and> (fst (split_audio en audio_path c w) = [] \<longleftrightarrow>
        \<not> split_succeeds en audio_path c w \<or> audio_duration audio_path w / of_int c \<le> 0)
   \<and> (0 < audio_duration audio_path w \<and> 0 < c \<longrightarrow>
        (fst (split_audio en audio_path c w) = [] \<longleftrightarrow> \<not> split_succeeds en audio_path c w))"
proof -
  have n0: "num_chunks d c = 0 \<longleftrightarrow> d / of_int c \<le> 0" for d
    by (simp add: num_chunks_def ceiling_le_iff)
  have iff: "fst (split_audio en audio_path c w) = [] \<longleftrightarrow>
        \<not> split_succeeds en audio_path c w \<or> audio_duration audio_path w / of_int c \<le> 0"
  proof (cases "split_succeeds en audio_path c w")
    case True
    from split_audio_succeeds [OF True] True show ?thesis by (simp add: n0)
  next
    case False
    from split_audio_fail [OF False] False show ?thesis by simp
  qed
  have pos: "0 < audio_duration audio_path w \<and> 0 < c \<longrightarrow>
        (fst (split_audio en audio_path c w) = [] \<longleftrightarrow> \<not> split_succeeds en audio_path c w)"
  proof
    assume "0 < audio_duration audio_path w \<and> 0 < c"
    then have "\<not> audio_duration audio_path w / of_int c \<le> 0"
      by (simp add: divide_le_0_iff)
    with iff show "fst (split_audio en audio_path c w) = [] \<longleftrightarrow> \<not> split_succeeds en audio_path c w"
      by simp
  qed
  have eq: "fst (split_audio en audio_path c w) =
     (case open_audio audio_path w of
        Inl e \<Rightarrow> []
      | Inr d \<Rightarrow>
          if c \<noteq> 0 \<and> writes_ok en audio_path [0..<num_chunks d c]
          then map (chunk_path audio_path) [0..<num_chunks d c] else [])"
  proof (cases "split_succeeds en audio_path c w")
    case True
    then obtain d where d: "open_audio audio_path w = Inr d" "c \<noteq> 0"
        "writes_ok en audio_path [0..<num_chunks d c]"
      by (auto simp add: split_succeeds_def split: sum.splits)
    from split_audio_ok [OF d] d show ?thesis by simp
  next
    case False
    from split_audio_fail [OF False] False show ?thesis
      by (auto simp add: split_succeeds_def split: sum.splits)
  qed
  from eq iff pos split_audio_fail [of en audio_path c w] split_audio_fail_prints [of en audio_path c w]
    split_audio_succeeds [of en audio_path c w]
  show ?thesis by blast
qed

text \<open>
  C10 at a track of three chunks whose second chunk cannot be written: the first chunk is
  written, and the result is the empty list all the same. And at the same track with every
  chunk written: the three paths, and no line printed.
\<close>

theorem split_audio_all_or_nothing_witness:
  "\<not> split_succeeds env_disk_full ''output/talk_audio.wav'' 60 (audio_world 150)
   \<and> 0 < audio_duration ''output/talk_audio.wav'' (audio_world 150) \<and> (0::int) < 60
   \<and> fst (split_audio env_disk_full ''output/talk_audio.wav'' 60 (audio_world 150)) = []
   \<and> events (snd (split_audio env_disk_full ''output/talk_audio.wav'' 60 (audio_world 150))) =
       [WriteAudio ''output/talk_audio_chunk_0.wav'' 0 60, Print ''Error splitting audio: disk full'']
   \<and> split_succeeds env_ok ''output/talk_audio.wav'' 60 (audio_world 150)
   \<and> fst (split_audio env_ok ''output/talk_audio.wav'' 60 (audio_world 150)) =
       [''output/talk_audio_chunk_0.wav'', ''output/talk_audio_chunk_1.wav'',
        ''output/talk_audio_chunk_2.wav'']
   \<and> events (snd (split_audio env_ok ''output/talk_audio.wav'' 60 (audio_world 150))) =
       [WriteAudio ''output/talk_audio_chunk_0.wav'' 0 60,
        WriteAudio ''output/talk_audio_chunk_1.wav'' 60 120,
        WriteAudio ''output/talk_audio_chunk_2.wav'' 120 150]"
proof -
  have h: "\<not> split_succeeds env_disk_full ''output/talk_audio.wav'' 60 (audio_world 150)"
    by code_simp
  have d: "0 < audio_duration ''output/talk_audio.wav'' (audio_world 150)" by code_simp
  have c: "(0::int) < 60" by simp
  have e: "events (snd (split_audio env_disk_full ''output/talk_audio.wav'' 60 (audio_world 150))) =
       [WriteAudio ''output/talk_audio_chunk_0.wav'' 0 60, Print ''Error splitting audio: disk full'']"
    by code_simp
  have ok: "split_succeeds env_ok ''output/talk_audio.wav'' 60 (audio_world 150)" by code_simp
  have paths: "map (chunk_path ''output/talk_audio.wav'')
      [0..<num_chunks (audio_duration ''output/talk_audio.wav'' (audio_world 150)) 60] =
       [''output/talk_audio_chunk_0.wav'', ''output/talk_audio_chunk_1.wav'',
        ''output/talk_audio_chunk_2.wav'']"
    by code_simp
  have writes: "events (audio_world 150) @
      map (chunk_write ''output/talk_audio.wav'' 60 (audio_duration ''output/talk_audio.wav'' (audio_world 150)))
      [0..<num_chunks (audio_duration ''output/talk_audio.wav'' (audio_world 150)) 60] =
       [WriteAudio ''output/talk_audio_chunk_0.wav'' 0 60,
        WriteAudio ''output/talk_audio_chunk_1.wav'' 60 120,
        WriteAudio ''output/talk_audio_chunk_2.wav'' 120 150]"
    by code_simp
  note t1 = split_audio_all_or_nothing [of env_disk_full "''output/talk_audio.wav''" 60 "audio_world 150"]
  note t2 = split_audio_all_or_nothing [of env_ok "''output/talk_audio.wav''" 60 "audio_world 150"]
  have a: "fst (split_audio env_disk_full ''output/talk_audio.wav'' 60 (audio_world 150)) = []"
    using t1 h by blast
  from t2 ok have "fst (split_audio env_ok ''output/talk_audio.wav'' 60 (audio_world 150)) =
      map (chunk_path ''output/talk_audio.wav'')
        [0..<num_chunks (audio_duration ''output/talk_audio.wav'' (audio_world 150)) 60]"
    by blast
  then have b: "fst (split_audio env_ok ''output/talk_audio.wav'' 60 (audio_world 150)) =
       [''output/talk_audio_chunk_0.wav'', ''output/talk_audio_chunk_1.wav'',
        ''output/talk_audio_chunk_2.wav'']"
    unfolding paths .
  from t2 ok have "events (snd (split_audio env_ok ''output/talk_audio.wav'' 60 (audio_world 150))) =
      events (audio_world 150) @
      map (chunk_write ''output/talk_audio.wav'' 60 (audio_duration ''output/talk_audio.wav'' (audio_world 150)))
      [0..<num_chunks (audio_duration ''output/talk_audio.wav'' (audio_world 150)) 60]"
    by blast
  then have b': "events (snd (split_audio env_ok ''output/talk_audio.wav'' 60 (audio_world 150))) =
       [WriteAudio ''output/talk_audio_chunk_0.wav'' 0 60,
        WriteAudio ''output/talk_audio_chunk_1.wav'' 60 120,
        WriteAudio ''output/talk_audio_chunk_2.wav'' 120 150]"
    unfolding writes .
  from h d c a e ok b b' show ?thesis by blast
qed

text \<open>
  C10 as claimed fails at audio of duration 0, and at a negative chunk duration: the segmenter
  does not fail, it prints nothing and changes nothing, and its result is empty.
\<close>

theorem empty_result_without_failure:
  "split_succeeds env_ok ''output/talk_audio.wav'' 60 (audio_world 0)
   \<and> fst (split_audio env_ok ''output/talk_audio.wav'' 60 (audio_world 0)) = []
   \<and> events (snd (split_audio env_ok ''output/talk_audio.wav'' 60 (audio_world 0))) = []
   \<and> split_succeeds env_ok ''output/talk_audio.wav'' (- 60) (audio_world 150)
   \<and> fst (split_audio env_ok ''output/talk_audio.wav'' (- 60) (audio_world 150)) = []
   \<and> events (snd (split_audio env_ok ''output/talk_audio.wav'' (- 60) (audio_world 150))) = []"
  by code_simp

section \<open>The unit of work\<close>

lemma transcripts_written_append:
  "transcripts_written (xs @ ys) = transcripts_written xs @ transcripts_written ys"
  by (induction xs rule: transcripts_written.induct) simp_all

lemma path_exists_print [simp]: "path_exists p (print m w) = path_exists p w"
  by (simp add: path_exists_def)

lemma open_audio_print [simp]: "open_audio p (print m w) = open_audio p w"
  by (simp add: open_audio_def)

lemma path_join_nonempty: "b \<noteq> [] \<Longrightarrow> path_join a b \<noteq> []"
  by (simp add: path_join_def)

lemma audio_path_nonempty: "audio_path_of vp \<noteq> []"
  by (simp add: audio_path_of_def path_join_nonempty)

lemma extract_audio_ok:
  assumes "files w vp = Some (VideoFile (Some d))" "0 < d" "write_error en ap = None"
  shows "extract_audio en vp ap w =
     (Some ap, emit (WriteAudio ap 0 d) (w\<lparr>files := (files w)(ap \<mapsto> AudioFile d)\<rparr>))"
  using assms by (simp add: extract_audio_def write_audiofile_def)

lemma extract_audio_fail:
  assumes "\<not> (\<exists>d. files w vp = Some (VideoFile (Some d)) \<and> 0 < d \<and> write_error en ap = None)"
  shows "\<exists>e. extract_audio en vp ap w = (None, print (''Error extracting audio: '' @ e) w)"
proof (cases "\<exists>d. files w vp = Some (VideoFile (Some d))")
  case True
  then obtain d where d: "files w vp = Some (VideoFile (Some d))" by blast
  with assms have "d \<le> 0 \<or> write_error en ap \<noteq> None" by auto
  then show ?thesis using d
    by (auto simp add: extract_audio_def write_audiofile_def)
next
  case False
  then show ?thesis
    by (auto simp add: extract_audio_def split: option.splits fcontent.splits)
qed

lemma extraction_succeeds_iff:
  "extraction_succeeds en vp w \<longleftrightarrow>
     (\<exists>d. files w vp = Some (VideoFile (Some d)) \<and> 0 < d \<and> write_error en (audio_path_of vp) = None)"
  by (auto simp add: extraction_succeeds_def split: option.splits fcontent.splits)

lemma split_audio_empty_iff:
  assumes "open_audio ap w = Inr d"
  shows "fst (split_audio en ap 60 w) = [] \<longleftrightarrow> d \<le> 0 \<or> \<not> writes_ok en ap [0..<num_chunks d 60]"
proof (cases "writes_ok en ap [0..<num_chunks d 60]")
  case True
  have "fst (split_audio en ap 60 w) = map (chunk_path ap) [0..<num_chunks d 60]"
    using split_audio_ok [OF assms _ True] by simp
  moreover have "num_chunks d 60 = 0 \<longleftrightarrow> d \<le> 0"
    by (simp add: num_chunks_def ceiling_le_iff divide_le_0_iff)
  ultimately show ?thesis using True by simp
next
  case False
  then have "\<not> split_succeeds en ap 60 w" using assms by (simp add: split_succeeds_def)
  from split_audio_fail [OF this] False show ?thesis by simp
qed

lemma fst_process_video_file:
  "path_exists vp w \<Longrightarrow>
   fst (process_video_file en vp w) =
     fst (process_video_body en vp (audio_path_of vp) (transcript_path_of vp) w)"
  by (simp add: process_video_file_def Let_def split: prod.splits)

lemma body_extraction_failed:
  assumes "\<not> extraction_succeeds en vp w"
  shows "fst (process_video_body en vp (audio_path_of vp) tp w) = Inl ExtractionFailed"
proof -
  define w2 where "w2 = print ''Extracting audio...'' (print (newline # ''Processing: '' @ path_basename vp) w)"
  have "\<not> (\<exists>d. files w2 vp = Some (VideoFile (Some d)) \<and> 0 < d \<and> write_error en (audio_path_of vp) = None)"
    using assms by (simp add: extraction_succeeds_iff w2_def)
  from extract_audio_fail [OF this]
  obtain e where "extract_audio en vp (audio_path_of vp) w2 =
      (None, print (''Error extracting audio: '' @ e) w2)" by blast
  then show ?thesis
    by (simp add: process_video_body_def w2_def truthy_def)
qed

lemma body_extraction_ok:
  assumes "extraction_succeeds en vp w"
  shows "fst (process_video_body en vp (audio_path_of vp) tp w) =
     (let d = track_duration w vp;
          audio_path = audio_path_of vp
      in if \<not> writes_ok en audio_path [0..<num_chunks d 60] then Inl SegmentationFailed
         else
           let chunks = map (chunk_path audio_path) [0..<num_chunks d 60];
               t = str_join '' '' (text_fragments (outcomes_from en 0 chunks))
           in if t = [] then Inl NoTranscribableAudio
              else if write_error en tp \<noteq> None then Inl PersistenceFailed
              else Inr t)"
proof -
  define ap where "ap = audio_path_of vp"
  from assms obtain d where vid: "files w vp = Some (VideoFile (Some d))"
      and dpos: "0 < d" and wr: "write_error en ap = None"
    by (auto simp add: extraction_succeeds_iff ap_def)
  have td: "track_duration w vp = d" using vid by (simp add: track_duration_def)
  define w2 where "w2 = print ''Extracting audio...'' (print (newline # ''Processing: '' @ path_basename vp) w)"
  define w3 where "w3 = emit (WriteAudio ap 0 d) (w2\<lparr>files := (files w2)(ap \<mapsto> AudioFile d)\<rparr>)"
  define w4 where "w4 = print ''Splitting audio into chunks...'' w3"
  have ex: "extract_audio en vp ap w2 = (Some ap, w3)"
    using extract_audio_ok [of w2 vp d en ap] vid dpos wr by (simp add: w2_def w3_def)
  have tr: "truthy (Some ap)" by (simp add: truthy_def ap_def audio_path_nonempty)
  have op: "open_audio ap w4 = Inr d"
    by (simp add: w4_def w3_def open_audio_def emit_def)
  obtain chunks w5 where sp: "split_audio en ap 60 w4 = (chunks, w5)"
    by (cases "split_audio en ap 60 w4")
  have empty: "chunks = [] \<longleftrightarrow> d \<le> 0 \<or> \<not> writes_ok en ap [0..<num_chunks d 60]"
    using split_audio_empty_iff [OF op, of en] sp by simp
  have body: "fst (process_video_body en vp ap tp w) =
     (if chunks = [] then Inl SegmentationFailed
      else let w6 = print (''Processing '' @ str_nat (length chunks) @ '' audio chunks...'') w5
        in fst (let (transcribed_text, w7) = transcribe_audio_chunks en chunks w6
           in if transcribed_text = [] then
                     (Inl NoTranscribableAudio, print ''No text was transcribed'' w7)
                   else
                     (case save_transcript en tp transcribed_text w7 of
                        Inl e \<Rightarrow> (Inl PersistenceFailed, print (''Error saving transcript: '' @ e) w7)
                      | Inr w8 \<Rightarrow>
                          (Inr transcribed_text,
                           print (''=================='' @ [newline])
                             (print transcribed_text
                               (print (newline # ''=== Transcript ==='') w8))))))"
    using ex [unfolded w2_def] tr sp [unfolded w4_def]
    by (simp add: process_video_body_def Let_def)
  show ?thesis
  proof (cases "chunks = []")
    case True
    then show ?thesis using body empty td dpos by (simp add: ap_def Let_def)
  next
    case False
    with empty have ok: "writes_ok en ap [0..<num_chunks d 60]" and pos: "\<not> d \<le> 0" by auto
    have ch: "chunks = map (chunk_path ap) [0..<num_chunks d 60]"
      using split_audio_ok [OF op _ ok] sp by simp
    define w6 where "w6 = print (''Processing '' @ str_nat (length chunks) @ '' audio chunks...'') w5"
    obtain t w7 where tx: "transcribe_audio_chunks en chunks w6 = (t, w7)"
      by (cases "transcribe_audio_chunks en chunks w6")
    have "list_all (\<lambda>p. is_audio (files w6 p)) chunks"
      using split_audio_files [OF op _ ok] sp ch by (simp add: w6_def)
    moreover have "distinct chunks"
      unfolding ch ap_def by (rule distinct_chunk_paths)
    ultimately have "chunk_outcomes en 0 chunks (files w6) = outcomes_from en 0 chunks"
      by (simp add: chunk_outcomes_present)
    then have t: "t = str_join '' '' (text_fragments (outcomes_from en 0 chunks))"
      using fst_transcribe_audio_chunks [of en chunks w6] tx by simp
    have "fst (process_video_body en vp ap tp w) =
       (if t = [] then Inl NoTranscribableAudio
        else if write_error en tp \<noteq> None then Inl PersistenceFailed else Inr t)"
      using body False tx [unfolded w6_def]
      by (auto simp add: save_transcript_def Let_def split: option.splits)
    then show ?thesis using ok pos td t ch by (simp add: ap_def [symmetric] Let_def)
  qed
qed

lemma fst_process_video_file_outcome:
  "fst (process_video_file en vp w) = unit_outcome en vp w"
proof (cases "path_exists vp w")
  case False
  then show ?thesis by (simp add: process_video_file_def unit_outcome_def)
next
  case True
  show ?thesis
  proof (cases "extraction_succeeds en vp w")
    case False
    then show ?thesis
      using True body_extraction_failed [OF False] fst_process_video_file [OF True]
      by (simp add: unit_outcome_def)
  next
    case ok: True
    show ?thesis
      using True ok body_extraction_ok [OF ok] fst_process_video_file [OF True]
      by (simp add: unit_outcome_def)
  qed
qed

lemma saved_print [simp]: "saved (print m w) = saved w"
  by (simp add: saved_def events_print transcripts_written_append)

lemma saved_remove_quietly [simp]: "saved (remove_quietly p w) = saved w"
  by (simp add: saved_def events_remove_quietly transcripts_written_append)

lemma saved_write_audiofile: "write_audiofile en p s e w = Inr w' \<Longrightarrow> saved w' = saved w"
  by (auto simp add: write_audiofile_def saved_def emit_def transcripts_written_append
      split: option.splits)

lemma saved_extract_audio: "extract_audio en vp ap w = (r, w') \<Longrightarrow> saved w' = saved w"
  by (auto simp add: extract_audio_def dest: saved_write_audiofile
      split: option.splits fcontent.splits sum.splits if_splits)

lemma saved_split_loop:
  "split_loop en ap c d is (chunks, w) = Inl (e, w') \<or>
   split_loop en ap c d is (chunks, w) = Inr (cs, w') \<Longrightarrow> saved w' = saved w"
proof (induction "is" arbitrary: chunks w)
  case Nil
  then show ?case by simp
next
  case (Cons i "is")
  show ?case
  proof (cases "write_audiofile en (chunk_path ap i) (of_int (int i * c))
                  (min (of_int ((int i + 1) * c)) d) w")
    case (Inl msg)
    with Cons.prems show ?thesis by (simp add: Let_def)
  next
    case (Inr w1)
    with Cons.prems have "split_loop en ap c d is (chunks @ [chunk_path ap i], w1) = Inl (e, w') \<or>
        split_loop en ap c d is (chunks @ [chunk_path ap i], w1) = Inr (cs, w')"
      by (simp add: Let_def)
    from Cons.IH [OF this] saved_write_audiofile [OF Inr] show ?thesis by simp
  qed
qed

lemma saved_split_audio: "split_audio en ap c w = (chunks, w') \<Longrightarrow> saved w' = saved w"
proof -
  assume a: "split_audio en ap c w = (chunks, w')"
  show ?thesis
  proof (cases "open_audio ap w")
    case (Inl e)
    with a show ?thesis by (auto simp add: split_audio_def)
  next
    case (Inr d)
    show ?thesis
    proof (cases "c = 0")
      case True
      with a Inr show ?thesis by (auto simp add: split_audio_def)
    next
      case False
      show ?thesis
      proof (cases "split_loop en ap c d [0..<nat \<lceil>d / of_int c\<rceil>] ([], w)")
        case (Inl ew)
        obtain e w1 where ew: "ew = (e, w1)" by (cases ew)
        from saved_split_loop [of en ap c d _ "[]" w e w1] Inl ew have "saved w1 = saved w" by blast
        with a Inr False Inl ew show ?thesis by (auto simp add: split_audio_def)
      next
        case (Inr cw)
        obtain cs w1 where cw: "cw = (cs, w1)" by (cases cw)
        from saved_split_loop [of en ap c d _ "[]" w _ w1 cs] Inr cw have "saved w1 = saved w" by blast
        with a \<open>open_audio ap w = Inr d\<close> False Inr cw show ?thesis
          by (auto simp add: split_audio_def)
      qed
    qed
  qed
qed

lemma saved_transcribe_chunk: "saved (snd (transcribe_chunk en n i p (ft, w))) = saved w"
proof (cases "readable en (files w) p")
  case True
  from try_chunk_readable [of en "print (progress_line n i) w" p i] True
  show ?thesis
    by (cases "recognize en i p")
       (simp_all add: transcribe_chunk_def progress_line_def Let_def saved_def
          events_remove_quietly transcripts_written_append print_def emit_def)
next
  case False
  from try_chunk_unreadable [of en "print (progress_line n i) w" p i] False
  show ?thesis
    by (auto simp add: transcribe_chunk_def progress_line_def Let_def saved_def
          events_remove_quietly transcripts_written_append print_def emit_def)
qed

lemma saved_transcribe_loop: "saved (snd (transcribe_loop en n i ps (ft, w))) = saved w"
proof (induction ps arbitrary: i ft w)
  case Nil
  show ?case by simp
next
  case (Cons p ps)
  obtain ft' w' where st: "transcribe_chunk en n i p (ft, w) = (ft', w')"
    by (cases "transcribe_chunk en n i p (ft, w)")
  have "saved w' = saved w" using saved_transcribe_chunk [of en n i p ft w] st by simp
  then show ?case using Cons.IH [of "Suc i" ft' w'] st by simp
qed

lemma saved_transcribe_audio_chunks:
  "transcribe_audio_chunks en chunks w = (t, w') \<Longrightarrow> saved w' = saved w"
  using saved_transcribe_loop [of en "length chunks" 0 chunks "[]" w]
  by (cases "transcribe_loop en (length chunks) 0 chunks ([], w)")
     (auto simp add: transcribe_audio_chunks_def)

lemma saved_save_transcript: "save_transcript en p t w = Inr w' \<Longrightarrow> saved w' = saved w @ [(p, t)]"
  by (auto simp add: save_transcript_def saved_def emit_def transcripts_written_append
      split: option.splits)

lemma saved_process_video_body:
  "saved (snd (process_video_body en vp ap tp w)) =
     saved w @ (case fst (process_video_body en vp ap tp w) of Inl f \<Rightarrow> [] | Inr t \<Rightarrow> [(tp, t)])"
proof -
  define w2 where "w2 = print ''Extracting audio...'' (print (newline # ''Processing: '' @ path_basename vp) w)"
  obtain ex w3 where ex: "extract_audio en vp ap w2 = (ex, w3)"
    by (cases "extract_audio en vp ap w2")
  have t3: "saved w3 = saved w" using saved_extract_audio [OF ex] by (simp add: w2_def)
  show ?thesis
  proof (cases "truthy ex")
    case False
    then show ?thesis using ex [unfolded w2_def] t3
      by (simp add: process_video_body_def Let_def)
  next
    case tr: True
    define w4 where "w4 = print ''Splitting audio into chunks...'' w3"
    obtain chunks w5 where sp: "split_audio en ap 60 w4 = (chunks, w5)"
      by (cases "split_audio en ap 60 w4")
    have t5: "saved w5 = saved w" using saved_split_audio [OF sp] t3 by (simp add: w4_def)
    show ?thesis
    proof (cases "chunks = []")
      case True
      then show ?thesis using ex [unfolded w2_def] tr sp [unfolded w4_def] t5
        by (simp add: process_video_body_def Let_def)
    next
      case ne: False
      define w6 where "w6 = print (''Processing '' @ str_nat (length chunks) @ '' audio chunks...'') w5"
      obtain t w7 where tx: "transcribe_audio_chunks en chunks w6 = (t, w7)"
        by (cases "transcribe_audio_chunks en chunks w6")
      have t7: "saved w7 = saved w" using saved_transcribe_audio_chunks [OF tx] t5 by (simp add: w6_def)
      show ?thesis
      proof (cases "t = []")
        case True
        then show ?thesis
          using ex [unfolded w2_def] tr sp [unfolded w4_def] ne tx [unfolded w6_def] t7
          by (simp add: process_video_body_def Let_def)
      next
        case tne: False
        show ?thesis
        proof (cases "save_transcript en tp t w7")
          case (Inl e)
          then show ?thesis
            using ex [unfolded w2_def] tr sp [unfolded w4_def] ne tx [unfolded w6_def] tne t7
            by (simp add: process_video_body_def Let_def)
        next
          case (Inr w8)
          then show ?thesis
            using ex [unfolded w2_def] tr sp [unfolded w4_def] ne tx [unfolded w6_def] tne t7
              saved_save_transcript [OF Inr]
            by (simp add: process_video_body_def Let_def)
        qed
      qed
    qed
  qed
qed

lemma saved_process_video_file:
  "saved (snd (process_video_file en vp w)) =
     saved w @ (case fst (process_video_file en vp w) of
               Inl f \<Rightarrow> [] | Inr t \<Rightarrow> [(transcript_path_of vp, t)])"
proof (cases "path_exists vp w")
  case False
  then show ?thesis by (simp add: process_video_file_def)
next
  case True
  obtain r w' where b: "process_video_body en vp (audio_path_of vp) (transcript_path_of vp) w = (r, w')"
    by (cases "process_video_body en vp (audio_path_of vp) (transcript_path_of vp) w")
  from saved_process_video_body [of en vp "audio_path_of vp" "transcript_path_of vp" w] b True
  show ?thesis by (simp add: process_video_file_def Let_def)
qed

lemma last_print_process_video_body:
  assumes "fst (process_video_body en vp ap tp w) = Inl f" "reason_line f = Some m"
  shows "\<exists>es. events (snd (process_video_body en vp ap tp w)) = es @ [Print m]"
proof -
  define w2 where "w2 = print ''Extracting audio...'' (print (newline # ''Processing: '' @ path_basename vp) w)"
  obtain ex w3 where ex: "extract_audio en vp ap w2 = (ex, w3)"
    by (cases "extract_audio en vp ap w2")
  show ?thesis
  proof (cases "truthy ex")
    case False
    then show ?thesis using ex [unfolded w2_def] assms
      by (auto simp add: process_video_body_def Let_def reason_line_def events_print)
  next
    case tr: True
    define w4 where "w4 = print ''Splitting audio into chunks...'' w3"
    obtain chunks w5 where sp: "split_audio en ap 60 w4 = (chunks, w5)"
      by (cases "split_audio en ap 60 w4")
    show ?thesis
    proof (cases "chunks = []")
      case True
      then show ?thesis using ex [unfolded w2_def] tr sp [unfolded w4_def] assms
        by (auto simp add: process_video_body_def Let_def reason_line_def events_print)
    next
      case ne: False
      define w6 where "w6 = print (''Processing '' @ str_nat (length chunks) @ '' audio chunks...'') w5"
      obtain t w7 where tx: "transcribe_audio_chunks en chunks w6 = (t, w7)"
        by (cases "transcribe_audio_chunks en chunks w6")
      show ?thesis
      proof (cases "t = []")
        case True
        then show ?thesis
          using ex [unfolded w2_def] tr sp [unfolded w4_def] ne tx [unfolded w6_def] assms
          by (auto simp add: process_video_body_def Let_def reason_line_def events_print)
      next
        case tne: False
        show ?thesis
        proof (cases "save_transcript en tp t w7")
          case (Inl e)
          then show ?thesis
            using ex [unfolded w2_def] tr sp [unfolded w4_def] ne tx [unfolded w6_def] tne assms
            by (auto simp add: process_video_body_def Let_def reason_line_def events_print)
        next
          case (Inr w8)
          then show ?thesis
            using ex [unfolded w2_def] tr sp [unfolded w4_def] ne tx [unfolded w6_def] tne assms
            by (auto simp add: process_video_body_def Let_def reason_line_def events_print)
        qed
      qed
    qed
  qed
qed

lemma reason_printed:
  assumes "fst (process_video_file en vp w) = Inl f" "reason_line f = Some m"
  shows "Print m \<in> set (events (snd (process_video_file en vp w)))"
proof (cases "path_exists vp w")
  case False
  then show ?thesis using assms by (auto simp add: process_video_file_def reason_line_def)
next
  case True
  obtain r w' where b: "process_video_body en vp (audio_path_of vp) (transcript_path_of vp) w = (r, w')"
    by (cases "process_video_body en vp (audio_path_of vp) (transcript_path_of vp) w")
  have r: "r = Inl f" using assms(1) True b by (simp add: process_video_file_def Let_def)
  have "\<exists>es. events w' = es @ [Print m]"
    using last_print_process_video_body [of en vp "audio_path_of vp" "transcript_path_of vp" w f m]
      b r assms(2) by simp
  then have "Print m \<in> set (events w')" by auto
  then show ?thesis using True b
    by (simp add: process_video_file_def Let_def events_remove_quietly)
qed

lemma text_fragments_none: "list_all (\<lambda>oc. \<not> is_text oc) os \<Longrightarrow> text_fragments os = []"
  by (induction os rule: text_fragments.induct) (simp_all add: is_text_def)

lemma num_chunks_pos: "0 < d \<Longrightarrow> 0 < num_chunks d 60"
  by (simp add: num_chunks_def)

text \<open>
  C4. A unit of work that gets as far as transcription (the video exists and has an audio track,
  the audio is extracted, the track has a positive duration and all its chunks are written) and in
  which no chunk's outcome is a text ends at the \<^verbatim>\<open>return None\<close> after ``No text was
  transcribed'': it is not completed with an empty transcript, and it writes no transcript.
\<close>

theorem no_text_fails_unit:
  assumes "files w video_path = Some (VideoFile (Some d))"
    and "write_error en (audio_path_of video_path) = None"
    and "0 < d"
    and "writes_ok en (audio_path_of video_path) [0..<num_chunks d 60]"
    and "list_all (\<lambda>oc. \<not> is_text oc)
           (outcomes_from en 0 (map (chunk_path (audio_path_of video_path)) [0..<num_chunks d 60]))"
  shows "fst (process_video_file en video_path w) = Inl NoTranscribableAudio
       \<and> returned (fst (process_video_file en video_path w)) = None
       \<and> Print ''No text was transcribed'' \<in> set (events (snd (process_video_file en video_path w)))
       \<and> transcripts_written (events (snd (process_video_file en video_path w))) =
           transcripts_written (events w)"
proof -
  have ex: "path_exists video_path w" "extraction_succeeds en video_path w"
      "track_duration w video_path = d"
    using assms(1,2,3) by (simp_all add: path_exists_def extraction_succeeds_def track_duration_def)
  have "unit_outcome en video_path w = Inl NoTranscribableAudio"
    using ex assms(3,4) text_fragments_none [OF assms(5)]
    by (simp add: unit_outcome_def Let_def)
  then have r: "fst (process_video_file en video_path w) = Inl NoTranscribableAudio"
    by (simp add: fst_process_video_file_outcome)
  have "Print ''No text was transcribed'' \<in> set (events (snd (process_video_file en video_path w)))"
    using reason_printed [OF r] by (simp add: reason_line_def)
  moreover have "transcripts_written (events (snd (process_video_file en video_path w))) =
           transcripts_written (events w)"
    using saved_process_video_file [of en video_path w] r by (simp add: saved_def)
  ultimately show ?thesis using r by (simp add: returned_def)
qed

text \<open>C4 at a video of 150 seconds none of whose three chunks is understood.\<close>

theorem no_text_fails_unit_witness:
  "files (video_world 150) ''input/talk.mp4'' = Some (VideoFile (Some 150))
   \<and> write_error env_silent (audio_path_of ''input/talk.mp4'') = None
   \<and> (0::rat) < 150
   \<and> writes_ok env_silent (audio_path_of ''input/talk.mp4'') [0..<num_chunks 150 60]
   \<and> list_all (\<lambda>oc. \<not> is_text oc)
        (outcomes_from env_silent 0
          (map (chunk_path (audio_path_of ''input/talk.mp4'')) [0..<num_chunks 150 60]))
   \<and> fst (process_video_file env_silent ''input/talk.mp4'' (video_world 150)) = Inl NoTranscribableAudio
   \<and> transcripts_written (events (snd (process_video_file env_silent ''input/talk.mp4'' (video_world 150)))) = []"
proof -
  have h1: "files (video_world 150) ''input/talk.mp4'' = Some (VideoFile (Some 150))"
    by (simp add: video_world_def)
  have h2: "write_error env_silent (audio_path_of ''input/talk.mp4'') = None"
    by (simp add: env_silent_def env_ok_def)
  have h3: "(0::rat) < 150" by simp
  have h4: "writes_ok env_silent (audio_path_of ''input/talk.mp4'') [0..<num_chunks 150 60]"
    by code_simp
  have h5: "list_all (\<lambda>oc. \<not> is_text oc)
        (outcomes_from env_silent 0
          (map (chunk_path (audio_path_of ''input/talk.mp4'')) [0..<num_chunks 150 60]))"
    by code_simp
  have e: "transcripts_written (events (video_world 150)) = []"
    by (simp add: video_world_def)
  from no_text_fails_unit [OF h1 h2 h3 h4 h5] h1 h2 h3 h4 h5 e show ?thesis by simp
qed

lemma extraction_succeeds_extract:
  "extraction_succeeds en vp w \<longleftrightarrow>
     fst (extract_audio en vp (audio_path_of vp) w) = Some (audio_path_of vp)"
proof (cases "extraction_succeeds en vp w")
  case True
  then obtain d where "files w vp = Some (VideoFile (Some d))" "0 < d"
      "write_error en (audio_path_of vp) = None"
    by (auto simp add: extraction_succeeds_iff)
  from extract_audio_ok [OF this] True show ?thesis by simp
next
  case False
  then have "\<not> (\<exists>d. files w vp = Some (VideoFile (Some d)) \<and> 0 < d \<and>
      write_error en (audio_path_of vp) = None)"
    by (simp add: extraction_succeeds_iff)
  from extract_audio_fail [OF this] False show ?thesis by auto
qed

lemma segmenter_input_audio:
  assumes "extraction_succeeds en vp w"
  shows "open_audio (audio_path_of vp) (segmenter_input en vp w) = Inr (track_duration w vp)
       \<and> 0 < track_duration w vp"
proof -
  from assms obtain d where vid: "files w vp = Some (VideoFile (Some d))"
      and dpos: "0 < d" and wr: "write_error en (audio_path_of vp) = None"
    by (auto simp add: extraction_succeeds_iff)
  define w2 where "w2 = print ''Extracting audio...'' (print (newline # ''Processing: '' @ path_basename vp) w)"
  have ex: "extract_audio en vp (audio_path_of vp) w2 =
      (Some (audio_path_of vp),
       emit (WriteAudio (audio_path_of vp) 0 d) (w2\<lparr>files := (files w2)(audio_path_of vp \<mapsto> AudioFile d)\<rparr>))"
    using extract_audio_ok [of w2 vp d en "audio_path_of vp"] vid dpos wr by (simp add: w2_def)
  show ?thesis using ex [unfolded w2_def] vid dpos
    by (simp add: segmenter_input_def open_audio_def emit_def track_duration_def)
qed

lemma body_segmentation:
  assumes "extraction_succeeds en vp w"
  shows "fst (process_video_body en vp (audio_path_of vp) tp w) = Inl SegmentationFailed \<longleftrightarrow>
         fst (split_audio en (audio_path_of vp) 60 (segmenter_input en vp w)) = []"
proof -
  note a = segmenter_input_audio [OF assms]
  have "fst (split_audio en (audio_path_of vp) 60 (segmenter_input en vp w)) = [] \<longleftrightarrow>
      \<not> writes_ok en (audio_path_of vp) [0..<num_chunks (track_duration w vp) 60]"
    using split_audio_empty_iff [of "audio_path_of vp" "segmenter_input en vp w" "track_duration w vp" en] a
    by simp
  then show ?thesis
    using body_extraction_ok [OF assms, of tp] by (simp add: Let_def)
qed

text \<open>
  C5. \<open>process_video_file\<close> ends at the \<^verbatim>\<open>return None\<close> after ``Failed to split audio'' exactly
  when the video exists, its audio is extracted (\<open>extract_audio\<close> returns the path) and the
  call of \<open>split_audio\<close> returns the empty list. At that call the audio has the duration of the track, which is not 0, and the result
  is empty exactly when the segmenter fails, a chunk that cannot be written. A video whose
  track has duration 0 does not fail at the segmentation step: the unit does not get that far,
  the extraction fails. And \<open>split_audio\<close> itself, given audio of duration 0, returns the empty
  list, prints no error and leaves the world as it is.
\<close>

theorem segmentation_failed_iff_segmenter_fails:
  "(fst (process_video_file en video_path w) = Inl SegmentationFailed \<longleftrightarrow>
      path_exists video_path w \<and> extraction_succeeds en video_path w \<and>
      fst (split_audio en (audio_path_of video_path) 60 (segmenter_input en video_path w)) = [])
   \<and> (extraction_succeeds en video_path w \<longleftrightarrow>
        fst (extract_audio en video_path (audio_path_of video_path) w) =
          Some (audio_path_of video_path))
   \<and> (extraction_succeeds en video_path w \<longrightarrow>
        open_audio (audio_path_of video_path) (segmenter_input en video_path w) =
          Inr (track_duration w video_path)
        \<and> track_duration w video_path \<noteq> 0
        \<and> (fst (split_audio en (audio_path_of video_path) 60 (segmenter_input en video_path w)) = [] \<longleftrightarrow>
             \<not> split_succeeds en (audio_path_of video_path) 60 (segmenter_input en video_path w)))
   \<and> (fst (process_video_file en video_path w) = Inl SegmentationFailed \<longrightarrow>
        Print ''Failed to split audio'' \<in> set (events (snd (process_video_file en video_path w))))
   \<and> (files w video_path = Some (VideoFile (Some 0)) \<longrightarrow>
        fst (process_video_file en video_path w) = Inl ExtractionFailed)
   \<and> (open_audio audio_path w = Inr 0 \<longrightarrow> split_audio en audio_path 60 w = ([], w))"
proof -
  have a: "fst (process_video_file en video_path w) = Inl SegmentationFailed \<longleftrightarrow>
      path_exists video_path w \<and> extraction_succeeds en video_path w \<and>
      fst (split_audio en (audio_path_of video_path) 60 (segmenter_input en video_path w)) = []"
  proof (cases "path_exists video_path w \<and> extraction_succeeds en video_path w")
    case True
    then show ?thesis
      using fst_process_video_file [of video_path w en] body_segmentation [of en video_path w]
      by simp
  next
    case False
    then show ?thesis
      by (auto simp add: fst_process_video_file_outcome unit_outcome_def)
  qed
  have b: "extraction_succeeds en video_path w \<longrightarrow>
        open_audio (audio_path_of video_path) (segmenter_input en video_path w) =
          Inr (track_duration w video_path)
        \<and> track_duration w video_path \<noteq> 0
        \<and> (fst (split_audio en (audio_path_of video_path) 60 (segmenter_input en video_path w)) = [] \<longleftrightarrow>
             \<not> split_succeeds en (audio_path_of video_path) 60 (segmenter_input en video_path w))"
  proof
    assume ok: "extraction_succeeds en video_path w"
    note s = segmenter_input_audio [OF ok]
    have "fst (split_audio en (audio_path_of video_path) 60 (segmenter_input en video_path w)) = [] \<longleftrightarrow>
        \<not> writes_ok en (audio_path_of video_path) [0..<num_chunks (track_duration w video_path) 60]"
      using split_audio_empty_iff [of "audio_path_of video_path" "segmenter_input en video_path w"
          "track_duration w video_path" en] s
      by simp
    then show "open_audio (audio_path_of video_path) (segmenter_input en video_path w) =
          Inr (track_duration w video_path)
        \<and> track_duration w video_path \<noteq> 0
        \<and> (fst (split_audio en (audio_path_of video_path) 60 (segmenter_input en video_path w)) = [] \<longleftrightarrow>
             \<not> split_succeeds en (audio_path_of video_path) 60 (segmenter_input en video_path w))"
      using s by (simp add: split_succeeds_def)
  qed
  have c: "fst (process_video_file en video_path w) = Inl SegmentationFailed \<longrightarrow>
        Print ''Failed to split audio'' \<in> set (events (snd (process_video_file en video_path w)))"
    using reason_printed [of en video_path w SegmentationFailed] by (simp add: reason_line_def)
  have d: "files w video_path = Some (VideoFile (Some 0)) \<longrightarrow>
        fst (process_video_file en video_path w) = Inl ExtractionFailed"
    by (simp add: fst_process_video_file_outcome unit_outcome_def path_exists_def
        extraction_succeeds_def)
  have e: "open_audio audio_path w = Inr 0 \<longrightarrow> split_audio en audio_path 60 w = ([], w)"
    by (simp add: split_audio_def)
  from a b c d e extraction_succeeds_extract [of en video_path w] show ?thesis by blast
qed

text \<open>
  C5 at a video of 150 seconds whose second chunk cannot be written, at a video whose track has
  duration 0, and at audio of duration 0.
\<close>

theorem segmentation_failed_iff_segmenter_fails_witness:
  "path_exists ''input/talk.mp4'' (video_world 150)
   \<and> extraction_succeeds env_disk_full ''input/talk.mp4'' (video_world 150)
   \<and> \<not> split_succeeds env_disk_full (audio_path_of ''input/talk.mp4'') 60
         (segmenter_input env_disk_full ''input/talk.mp4'' (video_world 150))
   \<and> fst (process_video_file env_disk_full ''input/talk.mp4'' (video_world 150)) = Inl SegmentationFailed
   \<and> Print ''Failed to split audio'' \<in>
       set (events (snd (process_video_file env_disk_full ''input/talk.mp4'' (video_world 150))))
   \<and> files (video_world 0) ''input/talk.mp4'' = Some (VideoFile (Some 0))
   \<and> fst (process_video_file env_ok ''input/talk.mp4'' (video_world 0)) = Inl ExtractionFailed
   \<and> open_audio ''output/talk_audio.wav'' (audio_world 0) = Inr 0
   \<and> split_audio env_ok ''output/talk_audio.wav'' 60 (audio_world 0) = ([], audio_world 0)"
proof -
  have h1: "path_exists ''input/talk.mp4'' (video_world 150)" by code_simp
  have h2: "extraction_succeeds env_disk_full ''input/talk.mp4'' (video_world 150)" by code_simp
  have h3: "\<not> split_succeeds env_disk_full (audio_path_of ''input/talk.mp4'') 60
         (segmenter_input env_disk_full ''input/talk.mp4'' (video_world 150))"
    by code_simp
  have h4: "files (video_world 0) ''input/talk.mp4'' = Some (VideoFile (Some 0))"
    by (simp add: video_world_def)
  have h5: "open_audio ''output/talk_audio.wav'' (audio_world 0) = Inr 0" by code_simp
  note t1 = segmentation_failed_iff_segmenter_fails [of env_disk_full "''input/talk.mp4''" "video_world 150"]
  note t2 = segmentation_failed_iff_segmenter_fails [of env_ok "''input/talk.mp4''" "video_world 0"]
  note t3 = segmentation_failed_iff_segmenter_fails [of _ _ "audio_world 0" "''output/talk_audio.wav''", where en = env_ok]
  have a: "fst (process_video_file env_disk_full ''input/talk.mp4'' (video_world 150)) = Inl SegmentationFailed"
    using t1 h1 h2 h3 by blast
  have b: "Print ''Failed to split audio'' \<in>
       set (events (snd (process_video_file env_disk_full ''input/talk.mp4'' (video_world 150))))"
    using t1 a by blast
  have c: "fst (process_video_file env_ok ''input/talk.mp4'' (video_world 0)) = Inl ExtractionFailed"
    using t2 h4 by blast
  have d: "split_audio env_ok ''output/talk_audio.wav'' 60 (audio_world 0) = ([], audio_world 0)"
    using t3 h5 by blast
  from h1 h2 h3 h4 h5 a b c d show ?thesis by blast
qed

text \<open>
  C7 at a video of 150 seconds whose second chunk cannot be written: \<open>split_audio\<close> gives up and
  returns the empty list, the unit fails at the segmentation step and its \<^verbatim>\<open>finally\<close> block
  removes the extracted audio, but the first chunk, already written, is removed by nobody and
  is still there when the unit has ended.
\<close>

theorem chunk_files_survive_failed_split:
  "fst (process_video_file env_disk_full ''input/talk.mp4'' (video_world 150)) = Inl SegmentationFailed
   \<and> files (snd (process_video_file env_disk_full ''input/talk.mp4'' (video_world 150)))
        ''output/talk_audio_chunk_0.wav'' = Some (AudioFile 60)
   \<and> files (snd (process_video_file env_disk_full ''input/talk.mp4'' (video_world 150)))
        ''output/talk_audio.wav'' = None"
  by code_simp

text \<open>
  What the unit of work does clean up. Once the video is found to exist, the extracted audio file is gone when
  \<open>process_video_file\<close> returns, on every path; when the video does not exist the path is left
  as it was.
\<close>

lemma extracted_audio_removed:
  "files (snd (process_video_file en video_path w)) (audio_path_of video_path) =
     (if path_exists video_path w then None else files w (audio_path_of video_path))"
proof (cases "path_exists video_path w")
  case False
  then show ?thesis by (simp add: process_video_file_def)
next
  case True
  obtain r w' where b: "process_video_body en video_path (audio_path_of video_path)
      (transcript_path_of video_path) w = (r, w')"
    by (cases "process_video_body en video_path (audio_path_of video_path)
      (transcript_path_of video_path) w")
  show ?thesis using True b
    by (simp add: process_video_file_def Let_def files_remove_quietly path_exists_def)
qed

text \<open>
  An example: a video of three chunks, the request for the second of which fails while the other two
  are recognised: the unit completes, and its transcript is the first and the third text.
\<close>

lemma one_failed_request_still_completes:
  "outcomes_from env_one_request_fails 0
      (map (chunk_path (audio_path_of ''input/talk.mp4'')) [0..<num_chunks 150 60]) =
     [Text ''part1'', RequestFailed ''quota exceeded'', Text ''part3'']
   \<and> fst (process_video_file env_one_request_fails ''input/talk.mp4'' (video_world 150)) =
       Inr ''part1 part3''"
proof -
  have "unit_outcome env_one_request_fails ''input/talk.mp4'' (video_world 150) = Inr ''part1 part3''"
    by code_simp
  moreover have "outcomes_from env_one_request_fails 0
      (map (chunk_path (audio_path_of ''input/talk.mp4'')) [0..<num_chunks 150 60]) =
     [Text ''part1'', RequestFailed ''quota exceeded'', Text ''part3'']"
    by code_simp
  ultimately show ?thesis by (simp add: fst_process_video_file_outcome)
qed

section \<open>The batch\<close>














section \<open>The similarity score\<close>

lemma matched_simps [simp]:
  "matched [] = 0" "matched ((i, j, k) # bs) = k + matched bs"
  "matched (xs @ ys) = matched xs + matched ys"
  by (simp_all add: matched_def)

lemma matched_insort: "matched (insort x xs) = matched [x] + matched xs"
  by (induction xs) (auto simp add: matched_def)

lemma matched_sort: "matched (sort xs) = matched xs"
  by (induction xs) (simp_all add: matched_insort, simp add: matched_def)

lemma matched_collapse:
  "matched (collapse m rest acc) = matched [m] + matched rest + matched acc"
  by (induction m rest acc rule: collapse.induct) auto

lemma blocks_loop_matched_a:
  "matched (blocks_loop a b queue mb) \<le>
     matched mb + sum_list (map span_a queue)"
proof (induction a b queue mb rule: blocks_loop.induct)
  case (1 a b matching_blocks)
  show ?case by (simp add: blocks_loop.simps)
next
  case (2 a b alo ahi blo bhi queue matching_blocks)
  obtain i j k where m: "find_longest_match a b alo ahi blo bhi = (i, j, k)"
    by (cases "find_longest_match a b alo ahi blo bhi") auto
  show ?case
  proof (cases "k = 0")
    case True
    have step: "blocks_loop a b ((alo, ahi, blo, bhi) # queue) matching_blocks =
        blocks_loop a b queue matching_blocks"
      using m True by (subst blocks_loop.simps) simp
    from "2.IH"(2) [OF m [symmetric] refl refl] True show ?thesis
      unfolding step by simp
  next
    case False
    then have kpos: "0 < k" by simp
    note bd = find_longest_match_bounds [OF m kpos]
    define q where "q = (if i + k < ahi \<and> j + k < bhi then [(i + k, ahi, j + k, bhi)] else []) @
              (if alo < i \<and> blo < j then [(alo, i, blo, j)] else []) @ queue"
    have step: "blocks_loop a b ((alo, ahi, blo, bhi) # queue) matching_blocks =
        blocks_loop a b q (matching_blocks @ [(i, j, k)])"
      using m False by (subst blocks_loop.simps) (simp add: q_def)
    have ih: "matched (blocks_loop a b q (matching_blocks @ [(i, j, k)])) \<le>
        matched (matching_blocks @ [(i, j, k)]) + sum_list (map span_a q)"
      unfolding q_def by (rule "2.IH"(1) [OF m [symmetric] refl refl False])
    have "sum_list (map span_a q) + k \<le>
        sum_list (map span_a ((alo, ahi, blo, bhi) # queue))"
      using bd by (auto simp add: q_def span_a_def span_b_def)
    then show ?thesis using ih unfolding step by simp
  qed
qed

lemma blocks_loop_matched_b:
  "matched (blocks_loop a b queue mb) \<le>
     matched mb + sum_list (map span_b queue)"
proof (induction a b queue mb rule: blocks_loop.induct)
  case (1 a b matching_blocks)
  show ?case by (simp add: blocks_loop.simps)
next
  case (2 a b alo ahi blo bhi queue matching_blocks)
  obtain i j k where m: "find_longest_match a b alo ahi blo bhi = (i, j, k)"
    by (cases "find_longest_match a b alo ahi blo bhi") auto
  show ?case
  proof (cases "k = 0")
    case True
    have step: "blocks_loop a b ((alo, ahi, blo, bhi) # queue) matching_blocks =
        blocks_loop a b queue matching_blocks"
      using m True by (subst blocks_loop.simps) simp
    from "2.IH"(2) [OF m [symmetric] refl refl] True show ?thesis
      unfolding step by simp
  next
    case False
    then have kpos: "0 < k" by simp
    note bd = find_longest_match_bounds [OF m kpos]
    define q where "q = (if i + k < ahi \<and> j + k < bhi then [(i + k, ahi, j + k, bhi)] else []) @
              (if alo < i \<and> blo < j then [(alo, i, blo, j)] else []) @ queue"
    have step: "blocks_loop a b ((alo, ahi, blo, bhi) # queue) matching_blocks =
        blocks_loop a b q (matching_blocks @ [(i, j, k)])"
      using m False by (subst blocks_loop.simps) (simp add: q_def)
    have ih: "matched (blocks_loop a b q (matching_blocks @ [(i, j, k)])) \<le>
        matched (matching_blocks @ [(i, j, k)]) + sum_list (map span_b q)"
      unfolding q_def by (rule "2.IH"(1) [OF m [symmetric] refl refl False])
    have "sum_list (map span_b q) + k \<le>
        sum_list (map span_b ((alo, ahi, blo, bhi) # queue))"
      using bd by (auto simp add: q_def span_a_def span_b_def)
    then show ?thesis using ih unfolding step by simp
  qed
qed

lemma matched_get_matching_blocks:
  "matched (get_matching_blocks a b) = matched (blocks_loop a b [(0, length a, 0, length b)] [])"
  by (simp add: get_matching_blocks_def Let_def matched_collapse matched_sort)

lemma matched_le:
  "matched (get_matching_blocks a b) \<le> length a"
  "matched (get_matching_blocks a b) \<le> length b"
  using blocks_loop_matched_a [of a b "[(0, length a, 0, length b)]" "[]"]
    blocks_loop_matched_b [of a b "[(0, length a, 0, length b)]" "[]"]
  by (simp_all add: matched_get_matching_blocks span_a_def span_b_def)

lemma ratio_eq: "ratio a b = calculate_ratio (matched (get_matching_blocks a b)) (length a + length b)"
  by (simp add: ratio_def matched_def)

lemma ratio_bounds: "0 \<le> ratio a b \<and> ratio a b \<le> 1"
proof (cases "length a + length b = 0")
  case True
  then show ?thesis by (simp add: ratio_eq calculate_ratio_def)
next
  case False
  have "2 * matched (get_matching_blocks a b) \<le> length a + length b"
    using matched_le [of a b] by simp
  then have le: "(2 * of_nat (matched (get_matching_blocks a b)) :: rat) \<le> of_nat (length a + length b)"
    by (metis of_nat_le_iff of_nat_mult of_nat_numeral)
  have "0 < length a + length b" using False by simp
  then have pos: "(0::rat) < of_nat (length a + length b)" by (simp only: of_nat_0_less_iff)
  have "ratio a b = 2 * of_nat (matched (get_matching_blocks a b)) / of_nat (length a + length b)"
    using False by (simp add: ratio_eq calculate_ratio_def)
  then show ?thesis using le pos by (simp add: divide_le_eq_1 del: of_nat_add)
qed

lemma match_row_append:
  "\<forall>j\<in>set xs. j < bhi \<Longrightarrow>
   match_row i blo bhi f (xs @ ys) st = match_row i blo bhi f ys (match_row i blo bhi f xs st)"
proof (induction xs arbitrary: st)
  case Nil
  show ?case by simp
next
  case (Cons j xs)
  obtain nj bi bj bs where st: "st = (nj, bi, bj, bs)" by (cases st)
  from Cons show ?case by (simp add: Let_def st)
qed

lemma match_row_quiet:
  "\<forall>j\<in>set xs. j < bhi \<and> cell f j \<le> bs \<Longrightarrow>
   match_row i 0 bhi f xs (nj, bi, bj, bs) =
     (\<lambda>j. if j \<in> set xs then cell f j else nj j, bi, bj, bs)"
proof (induction xs arbitrary: nj)
  case Nil
  show ?case by simp
next
  case (Cons j xs)
  have "match_row i 0 bhi f (j # xs) (nj, bi, bj, bs) =
      match_row i 0 bhi f xs (nj(j := cell f j), bi, bj, bs)"
    using Cons.prems by (simp add: Let_def cell_def)
  also have "\<dots> = (\<lambda>j'. if j' \<in> set xs then cell f j' else (nj(j := cell f j)) j', bi, bj, bs)"
    by (rule Cons.IH) (use Cons.prems in simp)
  also have "(\<lambda>j'. if j' \<in> set xs then cell f j' else (nj(j := cell f j)) j') =
      (\<lambda>j'. if j' \<in> set (j # xs) then cell f j' else nj j')"
    by (rule ext) simp
  finally show ?case .
qed

lemma match_row_one:
  "j < bhi \<Longrightarrow>
   match_row i 0 bhi f [j] (nj, bi, bj, bs) =
     (nj(j := cell f j),
      if bs < cell f j then (i + 1 - cell f j, j + 1 - cell f j, cell f j) else (bi, bj, bs))"
  by (simp add: Let_def cell_def)

lemma unpopular_run_le: "unpopular_run x m \<le> m + 1"
  by (induction m) simp_all

lemma unpopular_run_popular: "popular x (x ! m) \<Longrightarrow> unpopular_run x m = 0"
  by (cases m) simp_all

lemma cell_le_run:
  assumes "row_ready x i f" "x ! j = x ! i" "\<not> popular x (x ! i)"
  shows "cell f j \<le> unpopular_run x (min i j)"
proof (cases i)
  case 0
  then show ?thesis using assms by (simp add: row_ready_def cell_def)
next
  case (Suc r)
  then have rd: "row_done x r f" using assms(1) by (simp add: row_ready_def)
  show ?thesis
  proof (cases j)
    case 0
    then show ?thesis using assms by (simp add: cell_def)
  next
    case (Suc j')
    have np: "\<not> popular x (x ! Suc (min r j'))"
      using assms(2,3) \<open>i = Suc r\<close> Suc by (cases "r \<le> j'") (simp_all add: min_def)
    have "f j' \<le> unpopular_run x (min r j')" using rd by (simp add: row_done_def)
    then show ?thesis using np \<open>i = Suc r\<close> Suc by (simp add: cell_def)
  qed
qed

lemma cell_eq_run:
  assumes "row_ready x i f" "\<not> popular x (x ! i)"
  shows "cell f i = unpopular_run x i"
proof (cases i)
  case 0
  then show ?thesis using assms by (simp add: row_ready_def cell_def)
next
  case (Suc r)
  then have "f r = unpopular_run x r" using assms(1) by (simp add: row_ready_def row_done_def)
  then show ?thesis using assms(2) Suc by (simp add: cell_def)
qed

lemma diagonal_row:
  assumes i: "i < length x" and ready: "row_ready x i f"
    and seen: "\<forall>m<i. unpopular_run x m \<le> bs" and fit: "p + bs \<le> i"
  shows "\<exists>f' p' bs'. match_row i 0 (length x) f (b2j x (x ! i)) (\<lambda>j. 0, p, p, bs) = (f', p', p', bs') \<and>
           row_done x i f' \<and> (\<forall>m<Suc i. unpopular_run x m \<le> bs') \<and> p' + bs' \<le> Suc i"
proof (cases "popular x (x ! i)")
  case True
  have "row_done x i (\<lambda>j. 0)" using True by (simp add: row_done_def unpopular_run_popular)
  moreover have "\<forall>m<Suc i. unpopular_run x m \<le> bs"
    using seen True by (simp add: less_Suc_eq unpopular_run_popular)
  ultimately show ?thesis using True fit by (simp add: b2j_def)
next
  case False
  define n where "n = length x"
  define js1 where "js1 = filter (\<lambda>j. x ! j = x ! i) [0..<i]"
  define js2 where "js2 = filter (\<lambda>j. x ! j = x ! i) [Suc i..<n]"
  define d where "d = unpopular_run x i"
  have "[0..<i + (n - i)] = [0..<i] @ [i..<i + (n - i)]"
    by (rule upt_add_eq_append) simp
  moreover have "[i..<n] = i # [Suc i..<n]"
    using i by (simp add: n_def upt_conv_Cons)
  ultimately have "[0..<n] = [0..<i] @ [i] @ [Suc i..<n]"
    using i by (simp add: n_def)
  then have js: "b2j x (x ! i) = js1 @ [i] @ js2"
    using False by (simp add: b2j_def js1_def js2_def n_def [symmetric])
  have in1: "\<forall>j\<in>set js1. j < n \<and> cell f j \<le> bs"
  proof
    fix j assume "j \<in> set js1"
    then have j: "j < i" "x ! j = x ! i" by (simp_all add: js1_def)
    have "cell f j \<le> unpopular_run x (min i j)" by (rule cell_le_run [OF ready j(2) False])
    then have "cell f j \<le> unpopular_run x j" using j(1) by (simp add: min_def)
    moreover have "unpopular_run x j \<le> bs" using seen j(1) by blast
    ultimately show "j < n \<and> cell f j \<le> bs" using j(1) i by (simp add: n_def)
  qed
  define g1 where "g1 = (\<lambda>j. if j \<in> set js1 then cell f j else (0::nat))"
  have r1: "match_row i 0 n f js1 (\<lambda>j. 0, p, p, bs) = (g1, p, p, bs)"
    unfolding g1_def by (rule match_row_quiet [OF in1])
  have ci: "cell f i = d" unfolding d_def by (rule cell_eq_run [OF ready False])
  define p1 where "p1 = (if bs < d then i + 1 - d else p)"
  define bs1 where "bs1 = (if bs < d then d else bs)"
  have "i < n" using i by (simp add: n_def)
  then have "match_row i 0 n f [i] (g1, p, p, bs) =
      (g1(i := cell f i),
       if bs < cell f i then (i + 1 - cell f i, i + 1 - cell f i, cell f i) else (p, p, bs))"
    by (rule match_row_one)
  also have "\<dots> = (g1(i := d), p1, p1, bs1)"
    unfolding ci by (simp add: p1_def bs1_def)
  finally have r2: "match_row i 0 n f [i] (g1, p, p, bs) = (g1(i := d), p1, p1, bs1)" .
  have dbs1: "d \<le> bs1" by (simp add: bs1_def)
  have in2: "\<forall>j\<in>set js2. j < n \<and> cell f j \<le> bs1"
  proof
    fix j assume "j \<in> set js2"
    then have j: "i < j" "j < n" "x ! j = x ! i" by (simp_all add: js2_def)
    have "cell f j \<le> unpopular_run x (min i j)" by (rule cell_le_run [OF ready j(3) False])
    then show "j < n \<and> cell f j \<le> bs1" using j(1,2) dbs1 by (simp add: min_def d_def)
  qed
  define g2 where "g2 = (\<lambda>j. if j \<in> set js2 then cell f j else (g1(i := d)) j)"
  have r3: "match_row i 0 n f js2 (g1(i := d), p1, p1, bs1) = (g2, p1, p1, bs1)"
    unfolding g2_def by (rule match_row_quiet [OF in2])
  have all1: "\<forall>j\<in>set js1. j < n" using in1 by simp
  have "match_row i 0 n f (js1 @ [i] @ js2) (\<lambda>j. 0, p, p, bs) =
      match_row i 0 n f ([i] @ js2) (match_row i 0 n f js1 (\<lambda>j. 0, p, p, bs))"
    by (rule match_row_append [OF all1])
  also have "\<dots> = match_row i 0 n f js2 (match_row i 0 n f [i] (g1, p, p, bs))"
    unfolding r1 using i by (intro match_row_append) (simp add: n_def)
  also have "\<dots> = (g2, p1, p1, bs1)" unfolding r2 r3 ..
  finally have res: "match_row i 0 (length x) f (b2j x (x ! i)) (\<lambda>j. 0, p, p, bs) = (g2, p1, p1, bs1)"
    unfolding js n_def .
  have g2le: "g2 j \<le> unpopular_run x (min i j)" for j
  proof (cases "j \<in> set js2")
    case True
    then have "x ! j = x ! i" by (simp add: js2_def)
    from cell_le_run [OF ready this False] True show ?thesis by (simp add: g2_def)
  next
    case n2: False
    show ?thesis
    proof (cases "j = i")
      case True
      then show ?thesis using n2 by (simp add: g2_def d_def)
    next
      case ni: False
      show ?thesis
      proof (cases "j \<in> set js1")
        case True
        then have "x ! j = x ! i" by (simp add: js1_def)
        from cell_le_run [OF ready this False] True n2 ni show ?thesis by (simp add: g2_def g1_def)
      next
        case False
        then show ?thesis using n2 ni by (simp add: g2_def g1_def)
      qed
    qed
  qed
  have "i \<notin> set js2" by (simp add: js2_def)
  then have g2i: "g2 i = unpopular_run x i" by (simp add: g2_def d_def)
  have rdone: "row_done x i g2" using g2le g2i by (simp add: row_done_def)
  have seen': "\<forall>m<Suc i. unpopular_run x m \<le> bs1"
    using seen dbs1 by (auto simp add: less_Suc_eq d_def bs1_def)
  have "d \<le> i + 1" unfolding d_def by (rule unpopular_run_le)
  then have fit': "p1 + bs1 \<le> Suc i" using fit by (simp add: p1_def bs1_def)
  from res rdone seen' fit' show ?thesis by blast
qed

lemma diagonal_rows:
  "i \<le> length x \<Longrightarrow> row_ready x i f \<Longrightarrow> \<forall>m<i. unpopular_run x m \<le> bs \<Longrightarrow> p + bs \<le> i \<Longrightarrow>
   \<exists>f' p' bs'. match_rows x x 0 (length x) [i..<length x] (f, p, p, bs) = (f', p', p', bs') \<and>
     p' + bs' \<le> length x"
proof (induction "length x - i" arbitrary: i f p bs)
  case 0
  then show ?case by simp
next
  case (Suc n)
  then have lt: "i < length x" by simp
  from diagonal_row [OF lt Suc.prems(2,3,4)]
  obtain f1 p1 bs1 where
    row: "match_row i 0 (length x) f (b2j x (x ! i)) (\<lambda>j. 0, p, p, bs) = (f1, p1, p1, bs1)"
    and rd: "row_done x i f1" and seen: "\<forall>m<Suc i. unpopular_run x m \<le> bs1"
    and fit: "p1 + bs1 \<le> Suc i"
    by blast
  have step: "match_rows x x 0 (length x) [i..<length x] (f, p, p, bs) =
      match_rows x x 0 (length x) [Suc i..<length x] (f1, p1, p1, bs1)"
    using lt row by (simp add: upt_rec [of i "length x"])
  have ready: "row_ready x (Suc i) f1" using rd by (simp add: row_ready_def)
  have "n = length x - Suc i" using Suc.hyps(2) by simp
  from Suc.hyps(1) [OF this _ ready seen fit] lt
  show ?case unfolding step by simp
qed

lemma extend_left_diagonal: "extend_left x x 0 0 (p, p, s) = (0, 0, s + p)"
proof (induction p arbitrary: s)
  case 0
  show ?case by (subst extend_left.simps) simp
next
  case (Suc p)
  have "extend_left x x 0 0 (Suc p, Suc p, s) = extend_left x x 0 0 (p, p, s + 1)"
    by (subst extend_left.simps) simp
  then show ?case using Suc [of "s + 1"] by simp
qed

lemma extend_right_diagonal:
  "s \<le> n \<Longrightarrow> extend_right x x n n (0, 0, s) = (0, 0, n)"
proof (induction "n - s" arbitrary: s)
  case 0
  then show ?case by (subst extend_right.simps) simp
next
  case (Suc d)
  then have lt: "s < n" by simp
  then have "extend_right x x n n (0, 0, s) = extend_right x x n n (0, 0, s + 1)"
    by (subst extend_right.simps) simp
  moreover have "d = n - (s + 1)" using Suc.hyps(2) by simp
  ultimately show ?case using Suc.hyps(1) [of "s + 1"] lt by simp
qed

lemma find_longest_match_same:
  "find_longest_match x x 0 (length x) 0 (length x) = (0, 0, length x)"
proof -
  have "row_ready x 0 (\<lambda>j. 0)" by (simp add: row_ready_def)
  from diagonal_rows [OF _ this, of 0 0]
  obtain f' p' bs' where
    rows: "match_rows x x 0 (length x) [0..<length x] (\<lambda>j. 0, 0, 0, 0) = (f', p', p', bs')"
    and fit: "p' + bs' \<le> length x"
    by auto
  have "extend_left x x 0 0 (p', p', bs') = (0, 0, bs' + p')" by (rule extend_left_diagonal)
  moreover have "extend_right x x (length x) (length x) (0, 0, bs' + p') = (0, 0, length x)"
    by (rule extend_right_diagonal) (use fit in simp)
  ultimately show ?thesis by (simp add: find_longest_match_def rows)
qed

lemma get_matching_blocks_same:
  assumes "x \<noteq> []"
  shows "get_matching_blocks x x = [(0, 0, length x), (length x, length x, 0)]"
proof -
  have "blocks_loop x x [(0, length x, 0, length x)] [] = blocks_loop x x [] [(0, 0, length x)]"
    using assms by (subst blocks_loop.simps) (simp add: find_longest_match_same)
  also have "\<dots> = [(0, 0, length x)]" by (simp add: blocks_loop.simps)
  finally show ?thesis using assms by (simp add: get_matching_blocks_def Let_def)
qed

lemma ratio_same: "ratio x x = 1"
proof (cases "x = []")
  case True
  then show ?thesis by (simp add: ratio_def calculate_ratio_def)
next
  case False
  then have "(of_nat (length x) :: rat) \<noteq> 0" by simp
  then show ?thesis using False
    by (simp add: ratio_def calculate_ratio_def get_matching_blocks_same)
qed

lemma lower_empty_iff: "lower u s = [] \<longleftrightarrow> s = []"
proof (cases "is_ascii s")
  case True
  then show ?thesis by (simp add: lower_def)
next
  case False
  have "lower_ucs4 u s i \<noteq> []" for i
    by (simp add: lower_ucs4_def Let_def split: prod.splits)
  then show ?thesis using False
    by (auto simp add: lower_def is_ascii_def)
qed

text \<open>
  C3, as the code has it. The score of the empty string against any string is 0, on either
  side: the test comes first, and no matching is done. Two non-empty strings whose lower-cased
  forms, those of \<^verbatim>\<open>lower()\<close>, are equal score 1, whatever the Unicode data.
\<close>

theorem compare_texts_edge_cases:
  "compare_texts u [] x = 0 \<and> compare_texts u x [] = 0
   \<and> (original \<noteq> [] \<and> transcribed \<noteq> [] \<and> lower u original = lower u transcribed \<longrightarrow>
        compare_texts u original transcribed = 1)"
  by (simp add: compare_texts_def ratio_same)

text \<open>
  C3 at ``The cat sat'' against ``the CAT sat'', and at a capital E with an acute accent (the
  code point 201) against the small one (233).
\<close>

theorem compare_texts_edge_cases_witness:
  "codepoints ''The cat sat'' \<noteq> [] \<and> codepoints ''the CAT sat'' \<noteq> []
   \<and> lower latin1 (codepoints ''The cat sat'') = lower latin1 (codepoints ''the CAT sat'')
   \<and> compare_texts latin1 (codepoints ''The cat sat'') (codepoints ''the CAT sat'') = 1
   \<and> [201, 116, 233] \<noteq> [] \<and> [233, 116, 233] \<noteq> []
   \<and> lower latin1 [201, 116, 233] = lower latin1 [233, 116, 233]
   \<and> compare_texts latin1 [201, 116, 233] [233, 116, 233] = 1"
proof -
  have n: "codepoints ''The cat sat'' \<noteq> []" "codepoints ''the CAT sat'' \<noteq> []"
    by (simp_all add: codepoints_def)
  have h: "lower latin1 (codepoints ''The cat sat'') = lower latin1 (codepoints ''the CAT sat'')"
    by code_simp
  have h': "lower latin1 [201, 116, 233] = lower latin1 [233, 116, 233]"
    by code_simp
  from compare_texts_edge_cases [of latin1 _ "codepoints ''The cat sat''" "codepoints ''the CAT sat''"]
    compare_texts_edge_cases [of latin1 _ "[201, 116, 233]" "[233, 116, 233]"] n h h'
  show ?thesis by simp
qed

text \<open>
  C3 as claimed fails at ``stra\<ss>e'' against ``STRASSE'': the two are equal after case folding,
  which turns the sharp s into ``ss'', but \<^verbatim>\<open>lower()\<close> leaves the sharp s as it is, and the
  score is 10/13.
\<close>

theorem case_folded_equal_scores_less:
  "sharp_s_word \<noteq> [] \<and> capitals_word \<noteq> []
   \<and> casefold latin1 sharp_s_word = casefold latin1 capitals_word
   \<and> lower latin1 sharp_s_word = sharp_s_word
   \<and> lower latin1 capitals_word = codepoints ''strasse''
   \<and> compare_texts latin1 sharp_s_word capitals_word = 10 / 13"
  by code_simp

lemma ends_cell:
  assumes "ends a b (i - 1) (j - 1) (f (j - 1))" "b ! j = a ! i"
  shows "ends a b i j (cell f j)"
  unfolding ends_def
proof (intro allI impI)
  fix t assume t: "t < cell f j"
  show "a ! (i - t) = b ! (j - t)"
  proof (cases t)
    case 0
    then show ?thesis using assms(2) by simp
  next
    case (Suc t')
    then have "j \<noteq> 0" "t' < f (j - 1)" using t by (auto simp add: cell_def split: if_splits)
    then have "a ! (i - 1 - t') = b ! (j - 1 - t')" using assms(1) by (simp add: ends_def)
    then show ?thesis using Suc by simp
  qed
qed

lemma ends_agree:
  assumes "ends a b i j k" "k \<le> i + 1" "k \<le> j + 1"
  shows "agree a b (i + 1 - k, j + 1 - k, k)"
proof -
  have "a ! (i + 1 - k + t) = b ! (j + 1 - k + t)" if t: "t < k" for t
  proof -
    have "k - 1 - t < k" using t by simp
    then have e: "a ! (i - (k - 1 - t)) = b ! (j - (k - 1 - t))"
      using assms(1) unfolding ends_def by blast
    have i1: "i - (k - 1 - t) = i + 1 - k + t" and j1: "j - (k - 1 - t) = j + 1 - k + t"
      using t assms(2,3) by arith+
    show ?thesis using e unfolding i1 j1 .
  qed
  then show ?thesis by (simp add: agree_def)
qed

lemma match_row_agree:
  assumes "\<forall>j. f j \<le> i - alo \<and> f j \<le> j + 1 - blo" and "\<forall>j. ends a b (i - 1) j (f j)"
    and "\<forall>j\<in>set js. b ! j = a ! i"
  shows "(\<forall>j. ends a b i j (nj j)) \<Longrightarrow> agree a b best \<Longrightarrow>
         match_row i blo bhi f js (nj, best) = (nj', best') \<Longrightarrow>
         (\<forall>j. ends a b i j (nj' j)) \<and> agree a b best'"
  using assms(3)
proof (induction js arbitrary: nj best)
  case Nil
  then show ?case by simp
next
  case (Cons j js)
  show ?case
  proof (cases "j < blo \<or> bhi \<le> j")
    case True
    then show ?thesis using Cons by (auto split: if_splits)
  next
    case False
    then have jin: "blo \<le> j" "j < bhi" by auto
    obtain bi bj bs where best: "best = (bi, bj, bs)" by (cases best)
    have bj': "b ! j = a ! i" using Cons.prems(4) by simp
    have e: "ends a b i j (cell f j)"
      using ends_cell [OF _ bj'] assms(2) by blast
    have k1: "cell f j \<le> i + 1"
      using assms(1) by (auto simp add: cell_def intro: le_trans [OF _ diff_le_self])
    have k2: "cell f j \<le> j + 1"
    proof (cases "j = 0")
      case True
      then show ?thesis by (simp add: cell_def)
    next
      case False
      have "f (j - 1) \<le> (j - 1) + 1 - blo" using assms(1) by blast
      then show ?thesis using False by (simp add: cell_def)
    qed
    define best1 where "best1 = (if bs < cell f j then (i + 1 - cell f j, j + 1 - cell f j, cell f j)
       else (bi, bj, bs))"
    have step: "match_row i blo bhi f (j # js) (nj, best) =
        match_row i blo bhi f js (nj(j := cell f j), best1)"
      using jin best by (simp add: cell_def best1_def Let_def)
    have nj1: "\<forall>j'. ends a b i j' ((nj(j := cell f j)) j')"
      using Cons.prems(1) e by simp
    have b1: "agree a b best1"
      using Cons.prems(2) best ends_agree [OF e k1 k2] by (simp add: best1_def)
    have rest: "match_row i blo bhi f js (nj(j := cell f j), best1) = (nj', best')"
      using Cons.prems(3) unfolding step .
    have "\<forall>j\<in>set js. b ! j = a ! i" using Cons.prems(4) by simp
    from Cons.IH [OF nj1 b1 rest this] show ?thesis .
  qed
qed

lemma b2j_elements: "\<forall>j\<in>set (b2j b c). b ! j = c"
  by (simp add: b2j_def)

lemma match_rows_agree:
  "alo \<le> i \<Longrightarrow> \<forall>j. f j \<le> i - alo \<and> f j \<le> j + 1 - blo \<Longrightarrow> \<forall>j. ends a b (i - 1) j (f j) \<Longrightarrow>
   in_box alo i blo bhi best \<Longrightarrow> agree a b best \<Longrightarrow>
   match_rows a b blo bhi [i..<ahi] (f, best) = (f', best') \<Longrightarrow> agree a b best'"
proof (induction "ahi - i" arbitrary: i f best)
  case 0
  then show ?case by simp
next
  case (Suc n)
  then have lt: "i < ahi" by simp
  obtain nj best1 where row: "match_row i blo bhi f (b2j b (a ! i)) (\<lambda>j. 0, best) = (nj, best1)"
    by (cases "match_row i blo bhi f (b2j b (a ! i)) (\<lambda>j. 0, best)")
  have step: "match_rows a b blo bhi [i..<ahi] (f, best) =
      match_rows a b blo bhi [Suc i..<ahi] (nj, best1)"
    using lt row by (simp add: upt_rec [of i ahi])
  have b0: "in_box alo (i + 1) blo bhi best"
    using in_box_mono [OF Suc.prems(4), of "i + 1"] by simp
  from match_row_bounds [OF Suc.prems(2) Suc.prems(1) _ b0 row]
  have nj: "\<forall>j. nj j \<le> Suc i - alo \<and> nj j \<le> j + 1 - blo"
    and b1: "in_box alo (Suc i) blo bhi best1" by simp_all
  have e0: "\<forall>j. ends a b i j ((\<lambda>j. 0 :: nat) j)" by (simp add: ends_def)
  from match_row_agree [OF Suc.prems(2,3) b2j_elements e0 Suc.prems(5) row]
  have e1: "\<forall>j. ends a b (Suc i - 1) j (nj j)" and a1: "agree a b best1" by simp_all
  have rest: "match_rows a b blo bhi [Suc i..<ahi] (nj, best1) = (f', best')"
    using Suc.prems(6) unfolding step .
  have "n = ahi - Suc i" using Suc.hyps(2) by simp
  from Suc.hyps(1) [OF this _ nj e1 b1 a1 rest] Suc.prems(1) show ?case by simp
qed

lemma extend_left_agree: "agree a b m \<Longrightarrow> agree a b (extend_left a b alo blo m)"
proof (induction a b alo blo m rule: extend_left.induct)
  case (1 a b alo blo besti bestj bestsize)
  show ?case
  proof (cases "alo < besti \<and> blo < bestj \<and> a ! (besti - 1) = b ! (bestj - 1)")
    case True
    have "a ! (besti - 1 + t) = b ! (bestj - 1 + t)" if t: "t < bestsize + 1" for t
    proof (cases t)
      case 0
      then show ?thesis using True by simp
    next
      case (Suc t')
      then have e: "a ! (besti + t') = b ! (bestj + t')" using "1.prems" t by (simp add: agree_def)
      have i1: "besti - 1 + t = besti + t'" and j1: "bestj - 1 + t = bestj + t'"
        using Suc True by arith+
      show ?thesis using e unfolding i1 j1 .
    qed
    then have "agree a b (besti - 1, bestj - 1, bestsize + 1)" by (simp add: agree_def)
    from "1.IH" [OF True this] True show ?thesis
      by (subst extend_left.simps) simp
  next
    case False
    then show ?thesis using "1.prems"
      by (subst extend_left.simps) auto
  qed
qed

lemma extend_right_agree: "agree a b m \<Longrightarrow> agree a b (extend_right a b ahi bhi m)"
proof (induction a b ahi bhi m rule: extend_right.induct)
  case (1 a b ahi bhi besti bestj bestsize)
  show ?case
  proof (cases "besti + bestsize < ahi \<and> bestj + bestsize < bhi \<and>
         a ! (besti + bestsize) = b ! (bestj + bestsize)")
    case True
    have "agree a b (besti, bestj, bestsize + 1)"
      using "1.prems" True by (auto simp add: agree_def less_Suc_eq)
    from "1.IH" [OF True this] True show ?thesis
      by (subst extend_right.simps) simp
  next
    case False
    then show ?thesis using "1.prems"
      by (subst extend_right.simps) auto
  qed
qed

lemma find_longest_match_agree: "agree a b (find_longest_match a b alo ahi blo bhi)"
proof -
  obtain f' best where rows:
    "match_rows a b blo bhi [alo..<ahi] (\<lambda>j. 0, (alo, blo, 0)) = (f', best)"
    by (cases "match_rows a b blo bhi [alo..<ahi] (\<lambda>j. 0, (alo, blo, 0))")
  have "agree a b best"
    by (rule match_rows_agree [OF _ _ _ _ _ rows, of alo]) (simp_all add: in_box_def ends_def agree_def)
  then have "agree a b (extend_right a b ahi bhi (extend_left a b alo blo best))"
    by (intro extend_right_agree extend_left_agree)
  then show ?thesis by (simp add: find_longest_match_def rows)
qed

lemma block_matchesI:
  assumes "i + k \<le> length a" "j + k \<le> length b" "agree a b (i, j, k)"
  shows "block_matches a b (i, j, k)"
proof -
  have "take k (drop i a) = take k (drop j b)"
  proof (rule nth_equalityI)
    show "length (take k (drop i a)) = length (take k (drop j b))" using assms(1,2) by simp
  next
    fix t assume "t < length (take k (drop i a))"
    then have t: "t < k" by simp
    then have "a ! (i + t) = b ! (j + t)" using assms(3) by (simp add: agree_def)
    then show "take k (drop i a) ! t = take k (drop j b) ! t" using t assms(1,2) by simp
  qed
  then show ?thesis using assms(1,2) by (simp add: block_matches_def)
qed

lemma block_matches_join:
  assumes "block_matches a b (i1, j1, k1)" "block_matches a b (i2, j2, k2)"
    and "i1 + k1 = i2" "j1 + k1 = j2"
  shows "block_matches a b (i1, j1, k1 + k2)"
proof -
  have "take (k1 + k2) (drop i1 a) = take k1 (drop i1 a) @ take k2 (drop (i1 + k1) a)"
    by (simp add: take_add add.commute)
  moreover have "take (k1 + k2) (drop j1 b) = take k1 (drop j1 b) @ take k2 (drop (j1 + k1) b)"
    by (simp add: take_add add.commute)
  ultimately show ?thesis using assms by (simp add: block_matches_def)
qed

lemma blocks_loop_matches:
  "list_all (block_matches a b) mb \<Longrightarrow> list_all (box_inside a b) queue \<Longrightarrow>
   list_all (block_matches a b) (blocks_loop a b queue mb)"
proof (induction a b queue mb rule: blocks_loop.induct)
  case (1 a b matching_blocks)
  then show ?case by (simp add: blocks_loop.simps)
next
  case (2 a b alo ahi blo bhi queue matching_blocks)
  obtain i j k where m: "find_longest_match a b alo ahi blo bhi = (i, j, k)"
    by (cases "find_longest_match a b alo ahi blo bhi") auto
  have q: "list_all (box_inside a b) queue" using "2.prems"(2) by simp
  have "box_inside a b (alo, ahi, blo, bhi)" using "2.prems"(2) by simp
  then have box: "ahi \<le> length a" "bhi \<le> length b" by (simp_all add: box_inside_def)
  show ?case
  proof (cases "k = 0")
    case True
    have step: "blocks_loop a b ((alo, ahi, blo, bhi) # queue) matching_blocks =
        blocks_loop a b queue matching_blocks"
      using m True by (subst blocks_loop.simps) simp
    from "2.IH"(2) [OF m [symmetric] refl refl _ "2.prems"(1) q] True show ?thesis
      unfolding step by simp
  next
    case False
    then have kpos: "0 < k" by simp
    note bd = find_longest_match_bounds [OF m kpos]
    define q' where "q' = (if i + k < ahi \<and> j + k < bhi then [(i + k, ahi, j + k, bhi)] else []) @
              (if alo < i \<and> blo < j then [(alo, i, blo, j)] else []) @ queue"
    have step: "blocks_loop a b ((alo, ahi, blo, bhi) # queue) matching_blocks =
        blocks_loop a b q' (matching_blocks @ [(i, j, k)])"
      using m False by (subst blocks_loop.simps) (simp add: q'_def)
    have "agree a b (i, j, k)" using find_longest_match_agree [of a b alo ahi blo bhi] m by simp
    then have "block_matches a b (i, j, k)" using bd box by (intro block_matchesI) simp_all
    then have mb: "list_all (block_matches a b) (matching_blocks @ [(i, j, k)])"
      using "2.prems"(1) by simp
    have "box_inside a b (i + k, ahi, j + k, bhi)" "box_inside a b (alo, i, blo, j)"
      using box bd by (simp_all add: box_inside_def)
    then have qq: "list_all (box_inside a b) q'"
      using q by (simp add: q'_def)
    have "list_all (block_matches a b) (blocks_loop a b q' (matching_blocks @ [(i, j, k)]))"
      using "2.IH"(1) [OF m [symmetric] refl refl False] mb qq unfolding q'_def by blast
    then show ?thesis unfolding step .
  qed
qed

lemma collapse_matches:
  "block_matches a b m \<Longrightarrow> list_all (block_matches a b) rest \<Longrightarrow>
   list_all (block_matches a b) acc \<Longrightarrow> list_all (block_matches a b) (collapse m rest acc)"
proof (induction m rest acc rule: collapse.induct)
  case (1 i1 j1 k1 non_adjacent)
  then show ?case by simp
next
  case (2 i1 j1 k1 i2 j2 k2 rest non_adjacent)
  show ?case
  proof (cases "i1 + k1 = i2 \<and> j1 + k1 = j2")
    case True
    have "block_matches a b (i1, j1, k1 + k2)"
      using block_matches_join [of a b i1 j1 k1 i2 j2 k2] "2.prems"(1,2) True by simp
    from "2.IH"(1) [OF True this] "2.prems" True show ?thesis by simp
  next
    case False
    from "2.IH"(2) [OF False] "2.prems" False show ?thesis by auto
  qed
qed

lemma get_matching_blocks_match: "list_all (block_matches a b) (get_matching_blocks a b)"
proof -
  have "list_all (block_matches a b) (blocks_loop a b [(0, length a, 0, length b)] [])"
    by (rule blocks_loop_matches) (simp_all add: box_inside_def)
  then have "list_all (block_matches a b) (sort (blocks_loop a b [(0, length a, 0, length b)] []))"
    by (simp add: list_all_iff)
  then have "list_all (block_matches a b)
      (collapse (0, 0, 0) (sort (blocks_loop a b [(0, length a, 0, length b)] [])) [])"
    by (intro collapse_matches) (simp_all add: block_matches_def)
  then show ?thesis by (simp add: get_matching_blocks_def Let_def block_matches_def)
qed

lemma apart_sym: "apart r s \<Longrightarrow> apart s r"
  by (auto simp add: apart_def)

lemma inside_apart: "inside r x \<Longrightarrow> apart x y \<Longrightarrow> apart r y"
  by (cases r, cases x, cases y) (auto simp add: inside_def apart_def before_def)

lemma sorted_wrt_apart_swap:
  "sorted_wrt apart (xs @ ys) \<Longrightarrow> sorted_wrt apart (ys @ xs)"
  by (auto simp add: sorted_wrt_append intro: apart_sym)

lemma sorted_wrt_apart_refine:
  assumes "sorted_wrt apart (x # ys)" "sorted_wrt apart rs" "\<forall>r\<in>set rs. inside r x"
  shows "sorted_wrt apart (rs @ ys)"
  using assms by (auto simp add: sorted_wrt_append intro: inside_apart)

lemma blocks_loop_apart:
  "sorted_wrt apart (queue @ map rect mb) \<Longrightarrow> list_all nonempty mb \<Longrightarrow>
   sorted_wrt apart (map rect (blocks_loop a b queue mb)) \<and>
   list_all nonempty (blocks_loop a b queue mb)"
proof (induction a b queue mb rule: blocks_loop.induct)
  case (1 a b matching_blocks)
  then show ?case by (simp add: blocks_loop.simps)
next
  case (2 a b alo ahi blo bhi queue matching_blocks)
  obtain i j k where m: "find_longest_match a b alo ahi blo bhi = (i, j, k)"
    by (cases "find_longest_match a b alo ahi blo bhi") auto
  define ys where "ys = queue @ map rect matching_blocks"
  have all: "sorted_wrt apart ((alo, ahi, blo, bhi) # ys)"
    using "2.prems"(1) by (simp add: ys_def)
  show ?case
  proof (cases "k = 0")
    case True
    have step: "blocks_loop a b ((alo, ahi, blo, bhi) # queue) matching_blocks =
        blocks_loop a b queue matching_blocks"
      using m True by (subst blocks_loop.simps) simp
    have "sorted_wrt apart (queue @ map rect matching_blocks)"
      using all by (simp add: ys_def)
    from "2.IH"(2) [OF m [symmetric] refl refl _ this "2.prems"(2)] True show ?thesis
      unfolding step by simp
  next
    case False
    then have kpos: "0 < k" by simp
    note bd = find_longest_match_bounds [OF m kpos]
    define right where "right = (if i + k < ahi \<and> j + k < bhi then [(i + k, ahi, j + k, bhi)] else [])"
    define left where "left = (if alo < i \<and> blo < j then [(alo, i, blo, j)] else [])"
    have step: "blocks_loop a b ((alo, ahi, blo, bhi) # queue) matching_blocks =
        blocks_loop a b (right @ left @ queue) (matching_blocks @ [(i, j, k)])"
      using m False by (subst blocks_loop.simps) (simp add: right_def left_def)
    define rs where "rs = rect (i, j, k) # right @ left"
    have ins: "\<forall>r\<in>set rs. inside r (alo, ahi, blo, bhi)"
      using bd by (auto simp add: rs_def right_def left_def inside_def rect_def)
    have mutual: "sorted_wrt apart rs"
      by (auto simp add: rs_def right_def left_def apart_def before_def rect_def)
    have "sorted_wrt apart (rs @ ys)" by (rule sorted_wrt_apart_refine [OF all mutual ins])
    then have "sorted_wrt apart ([rect (i, j, k)] @ ((right @ left) @ ys))" by (simp add: rs_def)
    then have "sorted_wrt apart (((right @ left) @ ys) @ [rect (i, j, k)])"
      by (rule sorted_wrt_apart_swap)
    then have a': "sorted_wrt apart ((right @ left @ queue) @ map rect (matching_blocks @ [(i, j, k)]))"
      by (simp add: ys_def)
    have "nonempty (i, j, k)" using kpos by (simp add: nonempty_def)
    then have n': "list_all nonempty (matching_blocks @ [(i, j, k)])"
      using "2.prems"(2) by simp
    from "2.IH"(1) [OF m [symmetric] refl refl False] a' n'
    show ?thesis unfolding step right_def left_def by blast
  qed
qed

lemma sorted_wrt_apart_insort:
  "sorted_wrt apart (map rect (insort m ms)) \<longleftrightarrow>
     (\<forall>y\<in>set ms. apart (rect m) (rect y)) \<and> sorted_wrt apart (map rect ms)"
proof (induction ms)
  case Nil
  show ?case by simp
next
  case (Cons x ms)
  show ?case
  proof (cases "m \<le> x")
    case True
    then show ?thesis by simp
  next
    case False
    then have "insort m (x # ms) = x # insort m ms" by simp
    then show ?thesis using Cons.IH
      by (auto simp add: set_insort_key intro: apart_sym)
  qed
qed

lemma sorted_wrt_apart_sort:
  "sorted_wrt apart (map rect (sort ms)) \<longleftrightarrow> sorted_wrt apart (map rect ms)"
  by (induction ms) (simp_all add: sorted_wrt_apart_insort)

lemma lex_first: "(i, j, k) \<le> (i', j', k') \<Longrightarrow> i \<le> (i' :: nat)"
  for j j' k k' :: nat
  by (auto simp add: less_eq_prod_def)

lemma precedes_triples [simp]:
  "precedes (i, j, k) (i', j', k') \<longleftrightarrow> i + k \<le> i' \<and> j + k \<le> j'"
  by (simp add: precedes_def)

lemma precedes_join:
  "i1 + k1 = i2 \<Longrightarrow> j1 + k1 = j2 \<Longrightarrow> precedes (i2, j2, k2) m \<Longrightarrow> precedes (i1, j1, k1 + k2) m"
  by (cases m) auto

lemma precedes_resize: "precedes m (i, j, k) \<Longrightarrow> precedes m (i, j, k')"
  by (cases m) auto

lemma precedes_of_sorted:
  assumes "m \<le> m'" "apart (rect m) (rect m')" "nonempty m'"
  shows "precedes m m'"
proof -
  obtain i j k where m: "m = (i, j, k)" by (cases m)
  obtain i' j' k' where m': "m' = (i', j', k')" by (cases m')
  have "i \<le> i'" using assms(1) lex_first unfolding m m' by blast
  then show ?thesis using assms(2,3)
    by (auto simp add: m m' apart_def before_def rect_def nonempty_def)
qed

lemma sorted_precedes:
  "sorted ms \<Longrightarrow> sorted_wrt apart (map rect ms) \<Longrightarrow> list_all nonempty ms \<Longrightarrow>
   sorted_wrt precedes ms"
  by (induction ms) (auto simp add: list_all_iff intro: precedes_of_sorted)

lemma collapse_precedes:
  "sorted_wrt precedes (acc @ m # rest) \<Longrightarrow> sorted_wrt precedes (collapse m rest acc)"
proof (induction m rest acc rule: collapse.induct)
  case (1 i1 j1 k1 non_adjacent)
  then show ?case by (simp add: sorted_wrt_append)
next
  case (2 i1 j1 k1 i2 j2 k2 rest non_adjacent)
  show ?case
  proof (cases "i1 + k1 = i2 \<and> j1 + k1 = j2")
    case True
    have "sorted_wrt precedes (non_adjacent @ (i1, j1, k1 + k2) # rest)"
      using "2.prems" True
      by (auto simp add: sorted_wrt_append intro: precedes_join precedes_resize)
    from "2.IH"(1) [OF True this] True show ?thesis by simp
  next
    case False
    have "sorted_wrt precedes
        ((if k1 \<noteq> 0 then non_adjacent @ [(i1, j1, k1)] else non_adjacent) @ (i2, j2, k2) # rest)"
      using "2.prems" by (auto simp add: sorted_wrt_append)
    then have "sorted_wrt precedes (collapse (i2, j2, k2) rest
        (if k1 \<noteq> 0 then non_adjacent @ [(i1, j1, k1)] else non_adjacent))"
      by (rule "2.IH"(2) [OF False])
    moreover have "collapse (i1, j1, k1) ((i2, j2, k2) # rest) non_adjacent =
        collapse (i2, j2, k2) rest
          (if k1 \<noteq> 0 then non_adjacent @ [(i1, j1, k1)] else non_adjacent)"
      using False by auto
    ultimately show ?thesis by (simp only:)
  qed
qed

lemma get_matching_blocks_precedes: "sorted_wrt precedes (get_matching_blocks a b)"
proof -
  define found where "found = blocks_loop a b [(0, length a, 0, length b)] []"
  have "sorted_wrt apart (map rect found) \<and> list_all nonempty found"
    unfolding found_def by (rule blocks_loop_apart) simp_all
  then have "sorted_wrt apart (map rect (sort found))" "list_all nonempty (sort found)"
    by (simp_all add: sorted_wrt_apart_sort list_all_iff)
  then have "sorted_wrt precedes (sort found)"
    by (intro sorted_precedes) simp_all
  moreover have "precedes (0, 0, 0) m" for m by (cases m) simp
  ultimately have "sorted_wrt precedes ([] @ (0, 0, 0) # sort found)"
    by simp
  then have c: "sorted_wrt precedes (collapse (0, 0, 0) (sort found) [])"
    by (rule collapse_precedes)
  have "list_all (block_matches a b) (get_matching_blocks a b)"
    by (rule get_matching_blocks_match)
  then have "list_all (block_matches a b) (collapse (0, 0, 0) (sort found) [])"
    by (simp add: get_matching_blocks_def Let_def found_def)
  moreover have "block_matches a b m \<Longrightarrow> precedes m (length a, length b, 0)" for m
    by (cases m) (simp add: block_matches_def)
  ultimately have "\<forall>m\<in>set (collapse (0, 0, 0) (sort found) []). precedes m (length a, length b, 0)"
    by (simp add: list_all_iff)
  then show ?thesis using c
    by (simp add: get_matching_blocks_def Let_def found_def [symmetric] sorted_wrt_append)
qed

text \<open>
  What \<open>find_longest_match\<close> returns is at least as long as every common block of its box
  that holds no popular element: the rows of the table hold, for every cell, the length of
  the longest run without popular elements that ends there, and the extensions never shorten
  a block. No element is popular in a string of fewer than 200 elements.
\<close>

lemma match_row_sorted:
  "sorted js \<Longrightarrow> match_row i blo bhi f js (nj, bi, bj, bs) = (nj', bi', bj', bs') \<Longrightarrow>
   (\<forall>j. nj' j = (if j \<in> set js \<and> blo \<le> j \<and> j < bhi then cell f j else nj j)) \<and>
   bs \<le> bs' \<and> (\<forall>j\<in>set js. blo \<le> j \<and> j < bhi \<longrightarrow> cell f j \<le> bs')"
proof (induction js arbitrary: nj bi bj bs)
  case Nil
  then show ?case by simp
next
  case (Cons j js)
  have srt: "sorted js" and ge: "\<forall>j'\<in>set js. j \<le> j'" using Cons.prems(1) by simp_all
  consider (low) "j < blo" | (high) "\<not> j < blo" "bhi \<le> j" | (mid) "blo \<le> j" "j < bhi"
    by linarith
  then show ?case
  proof cases
    case low
    then have "match_row i blo bhi f js (nj, bi, bj, bs) = (nj', bi', bj', bs')"
      using Cons.prems(2) by simp
    from Cons.IH [OF srt this] low show ?thesis by auto
  next
    case high
    then have "(nj', bi', bj', bs') = (nj, bi, bj, bs)" using Cons.prems(2) by simp
    then show ?thesis using high ge by auto
  next
    case mid
    define bs1 where "bs1 = (if bs < cell f j then cell f j else bs)"
    define bi1 where "bi1 = (if bs < cell f j then i + 1 - cell f j else bi)"
    define bj1 where "bj1 = (if bs < cell f j then j + 1 - cell f j else bj)"
    have "match_row i blo bhi f (j # js) (nj, bi, bj, bs) =
        match_row i blo bhi f js (nj(j := cell f j), bi1, bj1, bs1)"
      using mid by (simp add: cell_def Let_def bs1_def bi1_def bj1_def)
    then have rest: "match_row i blo bhi f js (nj(j := cell f j), bi1, bj1, bs1) = (nj', bi', bj', bs')"
      using Cons.prems(2) by simp
    from Cons.IH [OF srt rest]
    have a: "\<forall>j'. nj' j' = (if j' \<in> set js \<and> blo \<le> j' \<and> j' < bhi then cell f j'
                 else (nj(j := cell f j)) j')"
      and b: "bs1 \<le> bs'" and c: "\<forall>j'\<in>set js. blo \<le> j' \<and> j' < bhi \<longrightarrow> cell f j' \<le> bs'"
      by blast+
    have "bs \<le> bs1" "cell f j \<le> bs1" by (simp_all add: bs1_def)
    then show ?thesis using a b c mid by auto
  qed
qed

lemma ends_shift: "ends a b i j n \<Longrightarrow> ends a b (i - 1) (j - 1) (n - 1)"
  unfolding ends_def
proof (intro allI impI)
  fix t assume a: "\<forall>t<n. a ! (i - t) = b ! (j - t)" and t: "t < n - 1"
  then have "a ! (i - Suc t) = b ! (j - Suc t)" by simp
  then show "a ! (i - 1 - t) = b ! (j - 1 - t)" by simp
qed

lemma ends_first: "ends a b i j n \<Longrightarrow> 0 < n \<Longrightarrow> a ! i = b ! j"
  by (auto simp add: ends_def)

lemma sorted_b2j: "sorted (b2j b c)"
  using sorted_wrt_filter [of "(\<le>)" "[0..<length b]" "\<lambda>j. b ! j = c"]
  by (simp add: b2j_def)

lemma maximal_row:
  assumes bhi: "bhi \<le> length b"
    and prev: "\<forall>j n. alo < i \<longrightarrow> run_at a b alo blo bhi (i - 1) j n \<longrightarrow> n \<le> f j"
    and row: "match_row i blo bhi f (b2j b (a ! i)) (\<lambda>j. 0, bi, bj, bs) = (nj', bi', bj', bs')"
  shows "(\<forall>j n. run_at a b alo blo bhi i j n \<longrightarrow> n \<le> nj' j) \<and> bs \<le> bs' \<and>
         (\<forall>j n. run_at a b alo blo bhi i j n \<longrightarrow> n \<le> bs')"
proof -
  define js where "js = b2j b (a ! i)"
  from match_row_sorted [OF sorted_b2j row]
  have nj: "\<forall>j. nj' j = (if j \<in> set js \<and> blo \<le> j \<and> j < bhi then cell f j else 0)"
    and mono: "bs \<le> bs'"
    and cells: "\<forall>j\<in>set js. blo \<le> j \<and> j < bhi \<longrightarrow> cell f j \<le> bs'"
    by (simp_all add: js_def)
  have key: "j \<in> set js \<and> n \<le> cell f j" if r: "run_at a b alo blo bhi i j n" for j n
  proof -
    from r have j: "blo \<le> j" "j < bhi" and n: "0 < n" "n \<le> i + 1 - alo" "n \<le> j + 1 - blo"
      and i: "alo \<le> i" and e: "ends a b i j n" and cl: "\<forall>t<n. \<not> popular b (b ! (j - t))"
      by (simp_all add: run_at_def)
    have "a ! i = b ! j" by (rule ends_first [OF e n(1)])
    moreover have "\<not> popular b (b ! j)" using cl n(1) by force
    ultimately have mem: "j \<in> set js" using j(2) bhi by (simp add: js_def b2j_def)
    have "n \<le> cell f j"
    proof (cases "n = 1")
      case True
      then show ?thesis by (simp add: cell_def)
    next
      case False
      then have n2: "2 \<le> n" using n(1) by simp
      have "alo \<le> i - 1 \<and> blo \<le> j - 1 \<and> j - 1 < bhi \<and> 0 < n - 1 \<and>
          n - 1 \<le> i - 1 + 1 - alo \<and> n - 1 \<le> j - 1 + 1 - blo"
        using j n n2 i by arith
      moreover have "\<forall>t<n - 1. \<not> popular b (b ! (j - 1 - t))"
      proof (intro allI impI)
        fix t assume "t < n - 1"
        then have "\<not> popular b (b ! (j - Suc t))" using cl by simp
        then show "\<not> popular b (b ! (j - 1 - t))" by simp
      qed
      ultimately have "run_at a b alo blo bhi (i - 1) (j - 1) (n - 1)"
        using ends_shift [OF e] unfolding run_at_def by blast
      moreover have "alo < i" using n2 n(2) by simp
      ultimately have "n - 1 \<le> f (j - 1)" using prev by blast
      moreover have "j \<noteq> 0" using n2 n(3) by auto
      ultimately show ?thesis by (simp add: cell_def)
    qed
    with mem show ?thesis by simp
  qed
  have a: "n \<le> nj' j" if r: "run_at a b alo blo bhi i j n" for j n
  proof -
    from r have "blo \<le> j" "j < bhi" by (simp_all add: run_at_def)
    then show ?thesis using key [OF r] nj by simp
  qed
  have b: "n \<le> bs'" if r: "run_at a b alo blo bhi i j n" for j n
  proof -
    from r have "blo \<le> j" "j < bhi" by (simp_all add: run_at_def)
    then have "cell f j \<le> bs'" using key [OF r] cells by blast
    then show ?thesis using key [OF r] by simp
  qed
  from a b mono show ?thesis by blast
qed

lemma maximal_rows:
  assumes bhi: "bhi \<le> length b"
  shows "\<forall>j n. alo < i \<longrightarrow> run_at a b alo blo bhi (i - 1) j n \<longrightarrow> n \<le> f j \<Longrightarrow>
         \<forall>i' j n. i' < i \<longrightarrow> run_at a b alo blo bhi i' j n \<longrightarrow> n \<le> bs \<Longrightarrow>
         match_rows a b blo bhi [i..<ahi] (f, bi, bj, bs) = (f', bi', bj', bs') \<Longrightarrow>
         bs \<le> bs' \<and> (\<forall>i' j n. i' < max i ahi \<longrightarrow> run_at a b alo blo bhi i' j n \<longrightarrow> n \<le> bs')"
proof (induction "ahi - i" arbitrary: i f bi bj bs)
  case 0
  then show ?case by (simp add: max_def)
next
  case (Suc d)
  then have lt: "i < ahi" by simp
  obtain nj bi1 bj1 bs1 where
    row: "match_row i blo bhi f (b2j b (a ! i)) (\<lambda>j. 0, bi, bj, bs) = (nj, bi1, bj1, bs1)"
    by (cases "match_row i blo bhi f (b2j b (a ! i)) (\<lambda>j. 0, bi, bj, bs)") auto
  have step: "match_rows a b blo bhi [i..<ahi] (f, bi, bj, bs) =
      match_rows a b blo bhi [Suc i..<ahi] (nj, bi1, bj1, bs1)"
    using lt row by (simp add: upt_rec [of i ahi])
  from maximal_row [OF bhi Suc.prems(1) row]
  have low: "\<forall>j n. run_at a b alo blo bhi i j n \<longrightarrow> n \<le> nj j"
    and mono: "bs \<le> bs1"
    and seen_i: "\<forall>j n. run_at a b alo blo bhi i j n \<longrightarrow> n \<le> bs1"
    by blast+
  have prev': "\<forall>j n. alo < Suc i \<longrightarrow> run_at a b alo blo bhi (Suc i - 1) j n \<longrightarrow> n \<le> nj j"
    using low by simp
  have seen': "\<forall>i' j n. i' < Suc i \<longrightarrow> run_at a b alo blo bhi i' j n \<longrightarrow> n \<le> bs1"
  proof (intro allI impI)
    fix i' j n assume "i' < Suc i" and r: "run_at a b alo blo bhi i' j n"
    then consider "i' < i" | "i' = i" by linarith
    then show "n \<le> bs1"
    proof cases
      case 1
      then have "n \<le> bs" using Suc.prems(2) r by blast
      then show ?thesis using mono by simp
    next
      case 2
      then show ?thesis using seen_i r by blast
    qed
  qed
  have rest: "match_rows a b blo bhi [Suc i..<ahi] (nj, bi1, bj1, bs1) = (f', bi', bj', bs')"
    using Suc.prems(3) unfolding step .
  have "d = ahi - Suc i" using Suc.hyps(2) by simp
  from Suc.hyps(1) [OF this prev' seen' rest]
  have "bs1 \<le> bs'" and "\<forall>i' j n. i' < max (Suc i) ahi \<longrightarrow> run_at a b alo blo bhi i' j n \<longrightarrow> n \<le> bs'"
    by blast+
  then show ?case using mono lt by (simp add: max_def)
qed

lemma extend_left_size: "snd (snd m) \<le> snd (snd (extend_left a b alo blo m))"
proof (induction a b alo blo m rule: extend_left.induct)
  case (1 a b alo blo besti bestj bestsize)
  show ?case
  proof (cases "alo < besti \<and> blo < bestj \<and> a ! (besti - 1) = b ! (bestj - 1)")
    case True
    from "1.IH" [OF True] True show ?thesis
      by (subst extend_left.simps) simp
  next
    case False
    then show ?thesis by (subst extend_left.simps) auto
  qed
qed

lemma extend_right_size: "snd (snd m) \<le> snd (snd (extend_right a b ahi bhi m))"
proof (induction a b ahi bhi m rule: extend_right.induct)
  case (1 a b ahi bhi besti bestj bestsize)
  show ?case
  proof (cases "besti + bestsize < ahi \<and> bestj + bestsize < bhi \<and>
         a ! (besti + bestsize) = b ! (bestj + bestsize)")
    case True
    from "1.IH" [OF True] True show ?thesis
      by (subst extend_right.simps) simp
  next
    case False
    then show ?thesis by (subst extend_right.simps) auto
  qed
qed

lemma agree_run:
  assumes "agree a b (i, j, k)" "0 < k" "alo \<le> i" "blo \<le> j" "j + k \<le> bhi"
    and unp: "\<forall>t<k. \<not> popular b (b ! (j + t))"
  shows "run_at a b alo blo bhi (i + k - 1) (j + k - 1) k"
proof -
  have cl: "\<not> popular b (b ! (j + k - 1 - t))" if t: "t < k" for t
  proof -
    have "k - 1 - t < k" using t by simp
    then have e: "\<not> popular b (b ! (j + (k - 1 - t)))" using unp by blast
    have j1: "j + (k - 1 - t) = j + k - 1 - t" using t by arith
    show ?thesis using e unfolding j1 .
  qed
  have "a ! (i + k - 1 - t) = b ! (j + k - 1 - t)" if t: "t < k" for t
  proof -
    have "k - 1 - t < k" using t by simp
    then have e: "a ! (i + (k - 1 - t)) = b ! (j + (k - 1 - t))"
      using assms(1) unfolding agree_def by blast
    have i1: "i + (k - 1 - t) = i + k - 1 - t" and j1: "j + (k - 1 - t) = j + k - 1 - t"
      using t by arith+
    show ?thesis using e unfolding i1 j1 .
  qed
  then have "ends a b (i + k - 1) (j + k - 1) k" by (simp add: ends_def)
  moreover have "alo \<le> i + k - 1 \<and> blo \<le> j + k - 1 \<and> j + k - 1 < bhi \<and> 0 < k \<and>
      k \<le> i + k - 1 + 1 - alo \<and> k \<le> j + k - 1 + 1 - blo"
    using assms(2-5) by arith
  ultimately show ?thesis using cl unfolding run_at_def by blast
qed

lemma find_longest_match_longest:
  assumes bhi: "bhi \<le> length b"
    and inbox: "alo \<le> i" "i + k \<le> ahi" "blo \<le> j" "j + k \<le> bhi"
    and ag: "agree a b (i, j, k)"
    and unp: "\<forall>t<k. \<not> popular b (b ! (j + t))"
  shows "k \<le> snd (snd (find_longest_match a b alo ahi blo bhi))"
proof (cases "k = 0")
  case True
  then show ?thesis by simp
next
  case False
  then have kpos: "0 < k" by simp
  obtain f' bi' bj' bs' where rows:
    "match_rows a b blo bhi [alo..<ahi] (\<lambda>j. 0, alo, blo, 0) = (f', bi', bj', bs')"
    by (cases "match_rows a b blo bhi [alo..<ahi] (\<lambda>j. 0, alo, blo, 0)") auto
  have "0 \<le> bs' \<and> (\<forall>i' j n. i' < max alo ahi \<longrightarrow> run_at a b alo blo bhi i' j n \<longrightarrow> n \<le> bs')"
    by (rule maximal_rows [OF bhi _ _ rows]) (simp_all add: run_at_def)
  moreover have "run_at a b alo blo bhi (i + k - 1) (j + k - 1) k"
    by (rule agree_run [OF ag kpos inbox(1,3,4) unp])
  moreover have "i + k - 1 < max alo ahi" using kpos inbox(2) by simp
  ultimately have "k \<le> bs'" by blast
  also have "bs' \<le> snd (snd (extend_left a b alo blo (bi', bj', bs')))"
    using extend_left_size [of "(bi', bj', bs')" a b alo blo] by simp
  also have "\<dots> \<le> snd (snd (extend_right a b ahi bhi (extend_left a b alo blo (bi', bj', bs'))))"
    by (rule extend_right_size)
  finally show ?thesis by (simp add: find_longest_match_def rows)
qed

lemma short_no_popular: "length b < 200 \<Longrightarrow> \<not> popular b c"
  by (simp add: popular_def)

lemma block_matches_agree: "block_matches a b (i, j, k) \<Longrightarrow> agree a b (i, j, k)"
proof -
  assume m: "block_matches a b (i, j, k)"
  then have ia: "i + k \<le> length a" and jb: "j + k \<le> length b"
    and eq: "take k (drop i a) = take k (drop j b)"
    by (simp_all add: block_matches_def)
  have "a ! (i + t) = b ! (j + t)" if t: "t < k" for t
  proof -
    have "take k (drop i a) ! t = a ! (i + t)" using t ia by simp
    moreover have "take k (drop j b) ! t = b ! (j + t)" using t jb by simp
    ultimately show ?thesis using eq by simp
  qed
  then show ?thesis by (simp add: agree_def)
qed

text \<open>
  The block \<open>find_longest_match\<close> returns cannot be extended on either side, and an empty one
  is the one at the corner of the box.
\<close>

lemma extend_left_stops:
  "extend_left a b alo blo m = (i, j, k) \<Longrightarrow> \<not> (alo < i \<and> blo < j \<and> a ! (i - 1) = b ! (j - 1))"
proof (induction a b alo blo m rule: extend_left.induct)
  case (1 a b alo blo besti bestj bestsize)
  show ?case
  proof (cases "alo < besti \<and> blo < bestj \<and> a ! (besti - 1) = b ! (bestj - 1)")
    case True
    then have "extend_left a b alo blo (besti, bestj, bestsize) =
        extend_left a b alo blo (besti - 1, bestj - 1, bestsize + 1)"
      by (subst extend_left.simps) simp
    then have "extend_left a b alo blo (besti - 1, bestj - 1, bestsize + 1) = (i, j, k)"
      using "1.prems" by simp
    from "1.IH" [OF True this] show ?thesis .
  next
    case False
    then have "extend_left a b alo blo (besti, bestj, bestsize) = (besti, bestj, bestsize)"
      by (subst extend_left.simps) auto
    then have "(besti, bestj, bestsize) = (i, j, k)" using "1.prems" by simp
    then show ?thesis using False by auto
  qed
qed

lemma extend_right_stops:
  "extend_right a b ahi bhi m = (i, j, k) \<Longrightarrow>
   \<not> (i + k < ahi \<and> j + k < bhi \<and> a ! (i + k) = b ! (j + k)) \<and> i = fst m \<and> j = fst (snd m)"
proof (induction a b ahi bhi m rule: extend_right.induct)
  case (1 a b ahi bhi besti bestj bestsize)
  show ?case
  proof (cases "besti + bestsize < ahi \<and> bestj + bestsize < bhi \<and>
         a ! (besti + bestsize) = b ! (bestj + bestsize)")
    case True
    then have "extend_right a b ahi bhi (besti, bestj, bestsize) =
        extend_right a b ahi bhi (besti, bestj, bestsize + 1)"
      by (subst extend_right.simps) simp
    then have "extend_right a b ahi bhi (besti, bestj, bestsize + 1) = (i, j, k)"
      using "1.prems" by simp
    from "1.IH" [OF True this] show ?thesis by auto
  next
    case False
    then have "extend_right a b ahi bhi (besti, bestj, bestsize) = (besti, bestj, bestsize)"
      by (subst extend_right.simps) auto
    then have "(besti, bestj, bestsize) = (i, j, k)" using "1.prems" by simp
    then show ?thesis using False by auto
  qed
qed

lemma find_longest_match_tight:
  assumes "find_longest_match a b alo ahi blo bhi = (i, j, k)"
  shows "\<not> (alo < i \<and> blo < j \<and> a ! (i - 1) = b ! (j - 1)) \<and>
         \<not> (i + k < ahi \<and> j + k < bhi \<and> a ! (i + k) = b ! (j + k))"
proof -
  obtain f' best where rows:
    "match_rows a b blo bhi [alo..<ahi] (\<lambda>j. 0, (alo, blo, 0)) = (f', best)"
    by (cases "match_rows a b blo bhi [alo..<ahi] (\<lambda>j. 0, (alo, blo, 0))")
  obtain i1 j1 k1 where l: "extend_left a b alo blo best = (i1, j1, k1)"
    by (cases "extend_left a b alo blo best") auto
  have r: "extend_right a b ahi bhi (i1, j1, k1) = (i, j, k)"
    using assms by (simp add: find_longest_match_def rows l)
  from extend_right_stops [OF r] extend_left_stops [OF l] show ?thesis by auto
qed

lemma match_row_zero:
  "match_row i blo bhi f js (nj, best) = (nj', best') \<Longrightarrow> snd (snd best') = 0 \<Longrightarrow> best' = best"
proof (induction js arbitrary: nj best)
  case Nil
  then show ?case by simp
next
  case (Cons j js)
  consider (low) "j < blo" | (high) "\<not> j < blo" "bhi \<le> j" | (mid) "blo \<le> j" "j < bhi"
    by linarith
  then show ?case
  proof cases
    case low
    then have "match_row i blo bhi f js (nj, best) = (nj', best')" using Cons.prems(1) by simp
    from Cons.IH [OF this Cons.prems(2)] show ?thesis .
  next
    case high
    then show ?thesis using Cons.prems(1) by simp
  next
    case mid
    obtain bi bj bs where best: "best = (bi, bj, bs)" by (cases best)
    define k where "k = (if j = 0 then 0 else f (j - 1)) + 1"
    define best1 where "best1 = (if bs < k then (i + 1 - k, j + 1 - k, k) else (bi, bj, bs))"
    have "match_row i blo bhi f (j # js) (nj, best) = match_row i blo bhi f js (nj(j := k), best1)"
      using mid best by (simp add: k_def best1_def Let_def)
    then have "match_row i blo bhi f js (nj(j := k), best1) = (nj', best')"
      using Cons.prems(1) by simp
    from Cons.IH [OF this Cons.prems(2)] have b1: "best' = best1" .
    have "0 < k" by (simp add: k_def)
    then have "\<not> bs < k" using b1 Cons.prems(2) by (auto simp add: best1_def split: if_splits)
    then show ?thesis using b1 best by (simp add: best1_def)
  qed
qed

lemma match_rows_zero:
  "match_rows a b blo bhi is (f, best) = (f', best') \<Longrightarrow> snd (snd best') = 0 \<Longrightarrow> best' = best"
proof (induction "is" arbitrary: f best)
  case Nil
  then show ?case by simp
next
  case (Cons i "is")
  obtain nj best1 where row: "match_row i blo bhi f (b2j b (a ! i)) (\<lambda>j. 0, best) = (nj, best1)"
    by (cases "match_row i blo bhi f (b2j b (a ! i)) (\<lambda>j. 0, best)")
  then have "match_rows a b blo bhi is (nj, best1) = (f', best')"
    using Cons.prems(1) by simp
  from Cons.IH [OF this Cons.prems(2)] have "best' = best1" .
  with match_row_zero [OF row] Cons.prems(2) show ?case by simp
qed

lemma find_longest_match_zero:
  assumes "find_longest_match a b alo ahi blo bhi = (i, j, 0)"
  shows "i = alo \<and> j = blo"
proof -
  obtain f' best where rows:
    "match_rows a b blo bhi [alo..<ahi] (\<lambda>j. 0, (alo, blo, 0)) = (f', best)"
    by (cases "match_rows a b blo bhi [alo..<ahi] (\<lambda>j. 0, (alo, blo, 0))")
  have r: "extend_right a b ahi bhi (extend_left a b alo blo best) = (i, j, 0)"
    using assms by (simp add: find_longest_match_def rows)
  have "snd (snd (extend_left a b alo blo best)) \<le> 0"
    using extend_right_size [of "extend_left a b alo blo best" a b ahi bhi] r by simp
  then have l0: "snd (snd (extend_left a b alo blo best)) = 0" by simp
  then have "snd (snd best) = 0"
    using extend_left_size [of best a b alo blo] by simp
  from match_rows_zero [OF rows this] have best: "best = (alo, blo, 0)" .
  have "extend_left a b alo blo (alo, blo, 0) = (alo, blo, 0)"
    by (subst extend_left.simps) simp
  with r best have "extend_right a b ahi bhi (alo, blo, 0) = (i, j, 0)" by simp
  from extend_right_stops [OF this] show ?thesis by simp
qed

text \<open>
  The blocks the loop of \<^verbatim>\<open>get_matching_blocks\<close> finds are the blocks of a matching of the
  whole box: for every box of its list the blocks of a matching of that box are added.
\<close>

lemma empty_box:
  "\<not> (alo < ahi \<and> blo < bhi) \<Longrightarrow> matcher_blocks a b (alo, ahi, blo, bhi) []"
  by (rule matcher_blocks.nothing) (auto simp add: common_block_def block_size_def)

lemma optional_box:
  assumes "list_all2 (matcher_blocks a b) (if c then [bx] else []) us"
    and "\<not> c \<Longrightarrow> matcher_blocks a b bx []"
  shows "\<exists>bs. matcher_blocks a b bx bs \<and> matched (concat us) = matched bs"
proof (cases c)
  case True
  with assms(1) obtain bs where "us = [bs]" "matcher_blocks a b bx bs"
    by (auto simp add: list_all2_Cons1)
  then show ?thesis by auto
next
  case False
  with assms show ?thesis by auto
qed

lemma find_longest_match_block:
  assumes m: "find_longest_match a b alo ahi blo bhi = (i, j, k)"
    and box: "bhi \<le> length b"
  shows "(\<forall>m'. common_block a b (alo, ahi, blo, bhi) m' \<and> unpopular_block b m' \<longrightarrow> block_size m' \<le> k)
       \<and> (0 < k \<longrightarrow> common_block a b (alo, ahi, blo, bhi) (i, j, k))"
proof -
  have a: "block_size m' \<le> k" if c: "common_block a b (alo, ahi, blo, bhi) m'" and u: "unpopular_block b m'" for m'
  proof -
    obtain i' j' k' where m': "m' = (i', j', k')" by (cases m')
    from c m' have inb: "alo \<le> i'" "i' + k' \<le> ahi" "blo \<le> j'" "j' + k' \<le> bhi"
      and ag: "agree a b (i', j', k')"
      by (simp_all add: common_block_def agree_def)
    from u m' have unp: "\<forall>t<k'. \<not> popular b (b ! (j' + t))" by (simp add: unpopular_block_def)
    from find_longest_match_longest [OF box inb ag unp] m m' show ?thesis
      by (simp add: block_size_def)
  qed
  have b: "common_block a b (alo, ahi, blo, bhi) (i, j, k)" if k: "0 < k"
  proof -
    have "agree a b (i, j, k)" using find_longest_match_agree [of a b alo ahi blo bhi] m by simp
    with find_longest_match_bounds [OF m k] show ?thesis
      by (simp add: common_block_def agree_def)
  qed
  from a b show ?thesis by blast
qed

lemma blocks_loop_matcher_blocks:
  "list_all (box_inside a b) queue \<Longrightarrow>
   \<exists>bss. list_all2 (matcher_blocks a b) queue bss \<and>
         matched (blocks_loop a b queue mb) = matched mb + matched (concat bss)"
proof (induction a b queue mb rule: blocks_loop.induct)
  case (1 a b matching_blocks)
  show ?case by (simp add: blocks_loop.simps)
next
  case (2 a b alo ahi blo bhi queue matching_blocks)
  obtain i j k where m: "find_longest_match a b alo ahi blo bhi = (i, j, k)"
    by (cases "find_longest_match a b alo ahi blo bhi") auto
  have q: "list_all (box_inside a b) queue" using "2.prems" by simp
  have "box_inside a b (alo, ahi, blo, bhi)" using "2.prems" by simp
  then have box: "ahi \<le> length a" "bhi \<le> length b" by (simp_all add: box_inside_def)
  note fb = find_longest_match_block [OF m box(2)]
  note tight = find_longest_match_tight [OF m]
  show ?case
  proof (cases "k = 0")
    case True
    have step: "blocks_loop a b ((alo, ahi, blo, bhi) # queue) matching_blocks =
        blocks_loop a b queue matching_blocks"
      using m True by (subst blocks_loop.simps) simp
    from "2.IH"(2) [OF m [symmetric] refl refl _ q] True
    obtain bss where bss: "list_all2 (matcher_blocks a b) queue bss"
        "matched (blocks_loop a b queue matching_blocks) = matched matching_blocks + matched (concat bss)"
      by auto
    from find_longest_match_zero [of a b alo ahi blo bhi i j] m True
    have corner: "i = alo" "j = blo" by simp_all
    have "\<not> (alo < ahi \<and> blo < bhi \<and> a ! alo = b ! blo)"
      using tight True corner by simp
    moreover have "\<forall>m'. common_block a b (alo, ahi, blo, bhi) m' \<and> unpopular_block b m' \<longrightarrow>
        block_size m' = 0"
      using fb True by simp
    ultimately have "matcher_blocks a b (alo, ahi, blo, bhi) []"
      by (rule matcher_blocks.nothing)
    then have "list_all2 (matcher_blocks a b) ((alo, ahi, blo, bhi) # queue) ([] # bss)"
      using bss(1) by simp
    moreover have "matched (blocks_loop a b ((alo, ahi, blo, bhi) # queue) matching_blocks) =
        matched matching_blocks + matched (concat ([] # bss))"
      unfolding step using bss(2) by simp
    ultimately show ?thesis by blast
  next
    case False
    then have kpos: "0 < k" by simp
    note bd = find_longest_match_bounds [OF m kpos]
    define rq where "rq = (if i + k < ahi \<and> j + k < bhi then [(i + k, ahi, j + k, bhi)] else [])"
    define lq where "lq = (if alo < i \<and> blo < j then [(alo, i, blo, j)] else [])"
    have step: "blocks_loop a b ((alo, ahi, blo, bhi) # queue) matching_blocks =
        blocks_loop a b (rq @ lq @ queue) (matching_blocks @ [(i, j, k)])"
      using m False by (subst blocks_loop.simps) (simp add: rq_def lq_def)
    have "box_inside a b (i + k, ahi, j + k, bhi)" "box_inside a b (alo, i, blo, j)"
      using box bd by (simp_all add: box_inside_def)
    then have qq: "list_all (box_inside a b) (rq @ lq @ queue)"
      using q by (simp add: rq_def lq_def)
    have "\<exists>bss. list_all2 (matcher_blocks a b) (rq @ lq @ queue) bss \<and>
        matched (blocks_loop a b (rq @ lq @ queue) (matching_blocks @ [(i, j, k)])) =
        matched (matching_blocks @ [(i, j, k)]) + matched (concat bss)"
      using "2.IH"(1) [OF m [symmetric] refl refl False] qq unfolding rq_def lq_def by blast
    then obtain bss where all: "list_all2 (matcher_blocks a b) (rq @ lq @ queue) bss"
      and sum: "matched (blocks_loop a b (rq @ lq @ queue) (matching_blocks @ [(i, j, k)])) =
        matched (matching_blocks @ [(i, j, k)]) + matched (concat bss)"
      by blast
    from all obtain rs rest where bss: "bss = rs @ rest"
      and rs: "list_all2 (matcher_blocks a b) rq rs"
      and rest: "list_all2 (matcher_blocks a b) (lq @ queue) rest"
      by (auto simp add: list_all2_append1)
    from rest obtain ls qs where rest': "rest = ls @ qs"
      and ls: "list_all2 (matcher_blocks a b) lq ls"
      and qs: "list_all2 (matcher_blocks a b) queue qs"
      by (auto simp add: list_all2_append1)
    from optional_box [OF rs [unfolded rq_def]] empty_box [of "i + k" ahi "j + k" bhi a b]
    obtain right where right: "matcher_blocks a b (i + k, ahi, j + k, bhi) right"
        "matched (concat rs) = matched right"
      by blast
    from optional_box [OF ls [unfolded lq_def]] empty_box [of alo i blo j a b]
    obtain left where left: "matcher_blocks a b (alo, i, blo, j) left"
        "matched (concat ls) = matched left"
      by blast
    have mb: "matcher_blocks a b (alo, ahi, blo, bhi) (left @ (i, j, k) # right)"
      using kpos fb tight left(1) right(1)
      by (intro matcher_blocks.taken) simp_all
    then have "list_all2 (matcher_blocks a b) ((alo, ahi, blo, bhi) # queue)
        ((left @ (i, j, k) # right) # qs)"
      using qs by simp
    moreover have "matched (blocks_loop a b ((alo, ahi, blo, bhi) # queue) matching_blocks) =
        matched matching_blocks + matched (concat ((left @ (i, j, k) # right) # qs))"
      unfolding step sum bss rest' using left(2) right(2) by simp
    ultimately show ?thesis by blast
  qed
qed

lemma get_matching_blocks_matcher_blocks:
  "\<exists>bs. matcher_blocks a b (0, length a, 0, length b) bs \<and>
        matched (get_matching_blocks a b) = matched bs"
proof -
  have "list_all (box_inside a b) [(0, length a, 0, length b)]" by (simp add: box_inside_def)
  from blocks_loop_matcher_blocks [OF this, of "[]"]
  obtain bss where "list_all2 (matcher_blocks a b) [(0, length a, 0, length b)] bss"
      "matched (blocks_loop a b [(0, length a, 0, length b)] []) = matched (concat bss)"
    by auto
  then obtain bs where "matcher_blocks a b (0, length a, 0, length b) bs"
      "matched (blocks_loop a b [(0, length a, 0, length b)] []) = matched bs"
    by (auto simp add: list_all2_Cons1)
  then show ?thesis by (auto simp add: matched_get_matching_blocks)
qed

text \<open>
  Without popular elements the matching is the longest-first one.
\<close>

lemma matcher_blocks_longest_first:
  assumes "\<forall>c. \<not> popular b c"
  shows "matcher_blocks a b bx bs \<Longrightarrow> longest_first a b bx bs"
proof (induction rule: matcher_blocks.induct)
  case (nothing alo ahi blo bhi)
  have "unpopular_block b m" for m using assms by (cases m) (simp add: unpopular_block_def)
  with nothing.hyps show ?case by (intro longest_first.nothing) blast
next
  case (taken k alo ahi blo bhi i j left right)
  have "unpopular_block b m" for m using assms by (cases m) (simp add: unpopular_block_def)
  with taken show ?case by (intro longest_first.longest) blast+
qed

text \<open>
  In the transcript of 200 equal characters that character is popular, so the index of the
  transcript is empty and no block is found.
\<close>

lemma count_list_replicate: "count_list (replicate n x) x = n"
  by (induction n) simp_all

lemma match_rows_no_entries:
  "\<forall>c. b2j b c = [] \<Longrightarrow> snd (match_rows a b blo bhi is (f, best)) = best"
  by (induction "is" arbitrary: f) simp_all

lemma lower_repeated:
  "lower u repeated_reference = repeated_reference" "lower u repeated_transcript = repeated_transcript"
proof -
  have a: "is_ascii repeated_reference" "is_ascii repeated_transcript"
    by (simp_all add: is_ascii_def repeated_reference_def repeated_transcript_def list_all_iff)
  have "map ascii_lower repeated_reference = repeated_reference"
    "map ascii_lower repeated_transcript = repeated_transcript"
    by (simp_all add: repeated_reference_def repeated_transcript_def ascii_lower_def)
  then show "lower u repeated_reference = repeated_reference"
    "lower u repeated_transcript = repeated_transcript"
    using a by (simp_all add: lower_def)
qed

lemma b2j_repeated: "b2j repeated_transcript c = []"
proof (cases "c = 97")
  case True
  have "popular repeated_transcript 97"
    by (simp add: popular_def repeated_transcript_def count_list_replicate)
  then show ?thesis using True by (simp add: b2j_def)
next
  case False
  then have "filter (\<lambda>j. repeated_transcript ! j = c) [0..<length repeated_transcript] = []"
    by (auto simp add: filter_empty_conv repeated_transcript_def)
  then show ?thesis by (simp add: b2j_def)
qed

lemma find_longest_match_repeated:
  "find_longest_match repeated_reference repeated_transcript 0 200 0 200 = (0, 0, 0)"
proof -
  obtain f' best where rows:
    "match_rows repeated_reference repeated_transcript 0 200 [0..<200] (\<lambda>j. 0, 0, 0, 0) = (f', best)"
    by (cases "match_rows repeated_reference repeated_transcript 0 200 [0..<200] (\<lambda>j. 0, 0, 0, 0)")
  have "snd (match_rows repeated_reference repeated_transcript 0 200 [0..<200] (\<lambda>j. 0, 0, 0, 0)) =
      (0, 0, 0)"
    by (rule match_rows_no_entries) (simp add: b2j_repeated)
  then have "best = (0, 0, 0)" using rows by simp
  moreover have "extend_left repeated_reference repeated_transcript 0 0 (0, 0, 0) = (0, 0, 0)"
    by (subst extend_left.simps) simp
  moreover have "extend_right repeated_reference repeated_transcript 200 200 (0, 0, 0) = (0, 0, 0)"
    by (subst extend_right.simps) (simp add: repeated_reference_def repeated_transcript_def)
  ultimately show ?thesis
    by (simp add: find_longest_match_def rows)
qed

lemma compare_texts_repeated: "compare_texts u repeated_reference repeated_transcript = 0"
proof -
  have l: "length repeated_reference = 200" "length repeated_transcript = 200"
    by (simp_all add: repeated_reference_def repeated_transcript_def)
  have "blocks_loop repeated_reference repeated_transcript [(0, 200, 0, 200)] [] =
      blocks_loop repeated_reference repeated_transcript [] []"
    by (subst blocks_loop.simps) (simp add: find_longest_match_repeated)
  also have "\<dots> = []" by (simp add: blocks_loop.simps)
  finally have "get_matching_blocks repeated_reference repeated_transcript = [(200, 200, 0)]"
    by (simp add: get_matching_blocks_def l)
  then have "ratio repeated_reference repeated_transcript = 0"
    by (simp add: ratio_def calculate_ratio_def l)
  moreover have "repeated_reference \<noteq> []" "repeated_transcript \<noteq> []"
    by (simp_all add: repeated_reference_def repeated_transcript_def)
  ultimately show ?thesis by (simp add: compare_texts_def lower_repeated)
qed

text \<open>
  C8, as the code has it. For non-empty strings the score is \<open>2 * M / T\<close>, where \<open>T\<close> is the
  combined length of the two lower-cased strings and \<open>M\<close> the total size of the matching blocks
  that \<open>get_matching_blocks\<close> finds in them. Every block is a stretch of the first string that
  also stands in the second; the blocks come in increasing order and none overlaps another, in
  either string. So \<open>M\<close> exceeds neither length, and the score lies between 0 and 1. \<open>M\<close> is
  the total size of the blocks of a matching of the two strings as \<^verbatim>\<open>SequenceMatcher\<close> does it,
  in which the block taken in a box is at least as long as every common block without popular
  elements. When the lower-cased transcript has fewer than 200 characters nothing is popular,
  and \<open>M\<close> is the total size of the blocks of a longest-first matching. The score is a function
  of the two strings. (The quotient is exact here; the program returns the floating-point
  number nearest to it.)
\<close>

theorem compare_texts_is_ratio:
  assumes "original \<noteq> []" and "transcribed \<noteq> []"
  shows "compare_texts u original transcribed =
           2 * of_nat (matched (get_matching_blocks (lower u original) (lower u transcribed))) /
           of_nat (length (lower u original) + length (lower u transcribed))
       \<and> 0 \<le> compare_texts u original transcribed
       \<and> compare_texts u original transcribed \<le> 1
       \<and> matched (get_matching_blocks (lower u original) (lower u transcribed)) \<le> length (lower u original)
       \<and> matched (get_matching_blocks (lower u original) (lower u transcribed)) \<le> length (lower u transcribed)
       \<and> list_all (block_matches (lower u original) (lower u transcribed))
             (get_matching_blocks (lower u original) (lower u transcribed))
       \<and> sorted_wrt precedes (get_matching_blocks (lower u original) (lower u transcribed))
       \<and> (\<exists>bs. matcher_blocks (lower u original) (lower u transcribed)
                  (0, length (lower u original), 0, length (lower u transcribed)) bs
                \<and> matched (get_matching_blocks (lower u original) (lower u transcribed)) = matched bs)
       \<and> (length (lower u transcribed) < 200 \<longrightarrow>
            (\<exists>bs. longest_first (lower u original) (lower u transcribed)
                  (0, length (lower u original), 0, length (lower u transcribed)) bs
                \<and> matched (get_matching_blocks (lower u original) (lower u transcribed)) = matched bs))"
proof -
  have ne: "length (lower u original) + length (lower u transcribed) \<noteq> 0"
    using assms by (simp add: lower_empty_iff)
  have eq: "compare_texts u original transcribed = ratio (lower u original) (lower u transcribed)"
    using assms by (simp add: compare_texts_def)
  have r: "ratio (lower u original) (lower u transcribed) =
      2 * of_nat (matched (get_matching_blocks (lower u original) (lower u transcribed))) /
      of_nat (length (lower u original) + length (lower u transcribed))"
    using ne by (simp add: ratio_eq calculate_ratio_def)
  obtain bs where bs: "matcher_blocks (lower u original) (lower u transcribed)
        (0, length (lower u original), 0, length (lower u transcribed)) bs"
      "matched (get_matching_blocks (lower u original) (lower u transcribed)) = matched bs"
    using get_matching_blocks_matcher_blocks [of "lower u original" "lower u transcribed"] by blast
  have longest: "length (lower u transcribed) < 200 \<longrightarrow>
            (\<exists>bs. longest_first (lower u original) (lower u transcribed)
                  (0, length (lower u original), 0, length (lower u transcribed)) bs
                \<and> matched (get_matching_blocks (lower u original) (lower u transcribed)) = matched bs)"
  proof
    assume "length (lower u transcribed) < 200"
    then have "\<forall>c. \<not> popular (lower u transcribed) c" by (simp add: short_no_popular)
    from matcher_blocks_longest_first [OF this bs(1)] bs(2)
    show "\<exists>bs. longest_first (lower u original) (lower u transcribed)
                  (0, length (lower u original), 0, length (lower u transcribed)) bs
                \<and> matched (get_matching_blocks (lower u original) (lower u transcribed)) = matched bs"
      by blast
  qed
  have general: "\<exists>bs. matcher_blocks (lower u original) (lower u transcribed)
                  (0, length (lower u original), 0, length (lower u transcribed)) bs
                \<and> matched (get_matching_blocks (lower u original) (lower u transcribed)) = matched bs"
    using bs by blast
  from r eq ratio_bounds [of "lower u original" "lower u transcribed"]
    matched_le [of "lower u original" "lower u transcribed"]
    get_matching_blocks_match [of "lower u original" "lower u transcribed"]
    get_matching_blocks_precedes [of "lower u original" "lower u transcribed"]
    general longest
  show ?thesis by (simp only: simp_thms)
qed

text \<open>
  C8 at ``abcd'' against ``BCDE'': one block of three characters, the blocks of a longest-first
  matching have the total size 3, and the score is 3/4.
\<close>

theorem compare_texts_is_ratio_witness:
  "codepoints ''abcd'' \<noteq> [] \<and> codepoints ''BCDE'' \<noteq> []
   \<and> length (lower latin1 (codepoints ''BCDE'')) < 200
   \<and> get_matching_blocks (lower latin1 (codepoints ''abcd'')) (lower latin1 (codepoints ''BCDE'')) =
       [(1, 0, 3), (4, 4, 0)]
   \<and> compare_texts latin1 (codepoints ''abcd'') (codepoints ''BCDE'') = 3 / 4
   \<and> 0 \<le> compare_texts latin1 (codepoints ''abcd'') (codepoints ''BCDE'')
   \<and> compare_texts latin1 (codepoints ''abcd'') (codepoints ''BCDE'') \<le> 1
   \<and> (\<exists>bs. longest_first (lower latin1 (codepoints ''abcd'')) (lower latin1 (codepoints ''BCDE''))
             (0, 4, 0, 4) bs \<and> matched bs = 3)"
proof -
  have h1: "codepoints ''abcd'' \<noteq> []" and h2: "codepoints ''BCDE'' \<noteq> []"
    by (simp_all add: codepoints_def)
  have short: "length (lower latin1 (codepoints ''BCDE'')) < 200" by code_simp
  have la: "length (lower latin1 (codepoints ''abcd'')) = 4" by code_simp
  have lb: "length (lower latin1 (codepoints ''BCDE'')) = 4" by code_simp
  have b: "get_matching_blocks (lower latin1 (codepoints ''abcd'')) (lower latin1 (codepoints ''BCDE'')) =
      [(1, 0, 3), (4, 4, 0)]"
    by code_simp
  note t = compare_texts_is_ratio [OF h1 h2, of latin1]
  from t have v: "compare_texts latin1 (codepoints ''abcd'') (codepoints ''BCDE'') =
       2 * of_nat (matched (get_matching_blocks (lower latin1 (codepoints ''abcd''))
         (lower latin1 (codepoints ''BCDE'')))) /
       of_nat (length (lower latin1 (codepoints ''abcd'')) + length (lower latin1 (codepoints ''BCDE'')))"
    and r: "0 \<le> compare_texts latin1 (codepoints ''abcd'') (codepoints ''BCDE'')"
      "compare_texts latin1 (codepoints ''abcd'') (codepoints ''BCDE'') \<le> 1"
    by blast+
  have v': "compare_texts latin1 (codepoints ''abcd'') (codepoints ''BCDE'') = 3 / 4"
    using v unfolding b la lb by simp
  from t short have "\<exists>bs. longest_first (lower latin1 (codepoints ''abcd''))
        (lower latin1 (codepoints ''BCDE''))
        (0, length (lower latin1 (codepoints ''abcd'')), 0, length (lower latin1 (codepoints ''BCDE''))) bs
      \<and> matched (get_matching_blocks (lower latin1 (codepoints ''abcd''))
          (lower latin1 (codepoints ''BCDE''))) = matched bs"
    by blast
  then have m: "\<exists>bs. longest_first (lower latin1 (codepoints ''abcd'')) (lower latin1 (codepoints ''BCDE''))
             (0, 4, 0, 4) bs \<and> matched bs = 3"
    unfolding b la lb by auto
  from h1 h2 short b v' r m show ?thesis by blast
qed

text \<open>
  C8 as claimed fails at the reference ``b'' followed by 199 times ``a'' against the transcript
  of 200 times ``a'': the two share a block of 199 characters, but the only character of the
  transcript is popular and left out of the search, so no block is found and the score is 0,
  where longest-first matching gives 398/400.
\<close>

theorem popular_characters_are_not_matched:
  "repeated_reference \<noteq> [] \<and> repeated_transcript \<noteq> []
   \<and> block_matches (lower latin1 repeated_reference) (lower latin1 repeated_transcript) (1, 0, 199)
   \<and> find_longest_match (lower latin1 repeated_reference) (lower latin1 repeated_transcript) 0 200 0 200 = (0, 0, 0)
   \<and> get_matching_blocks (lower latin1 repeated_reference) (lower latin1 repeated_transcript) = [(200, 200, 0)]
   \<and> compare_texts latin1 repeated_reference repeated_transcript = 0"
proof -
  have l: "length repeated_reference = 200" "length repeated_transcript = 200"
    by (simp_all add: repeated_reference_def repeated_transcript_def)
  have ne: "repeated_reference \<noteq> []" "repeated_transcript \<noteq> []"
    by (simp_all add: repeated_reference_def repeated_transcript_def)
  have "take 199 (drop 1 repeated_reference) = take 199 (drop 0 repeated_transcript)"
    by (simp add: repeated_reference_def repeated_transcript_def)
  then have bm: "block_matches repeated_reference repeated_transcript (1, 0, 199)"
    by (simp add: block_matches_def l)
  have "blocks_loop repeated_reference repeated_transcript [(0, 200, 0, 200)] [] =
      blocks_loop repeated_reference repeated_transcript [] []"
    by (subst blocks_loop.simps) (simp add: find_longest_match_repeated)
  also have "\<dots> = []" by (simp add: blocks_loop.simps)
  finally have gb: "get_matching_blocks repeated_reference repeated_transcript = [(200, 200, 0)]"
    by (simp add: get_matching_blocks_def l)
  from ne bm gb find_longest_match_repeated compare_texts_repeated show ?thesis
    by (simp add: lower_repeated)
qed

end
